theory Spec2Isabelle
  imports Complex_Main
begin

section \<open>Values exchanged with the platform\<close>

text \<open>
  The service of \<^verbatim>\<open>services/api.ts\<close> talks to three platform facilities: \<^verbatim>\<open>fetch\<close>,
  \<^verbatim>\<open>setTimeout\<close> and \<^verbatim>\<open>Date.now\<close>. What they hand back is data of the following types.
\<close>

text \<open>
  A parsed JSON body. \<open>JNull\<close> is JavaScript's \<^verbatim>\<open>null\<close>; a number is the value it
  was parsed to.
\<close>

datatype json =
    JNull
  | JBool bool
  | JNum real
  | JStr string
  | JArr "json list"
  | JObj "(string \<times> json) list"

text \<open>
  JavaScript truthiness, which is what \<^verbatim>\<open>if (result.data)\<close> and \<^verbatim>\<open>if (cachedData)\<close> test:
  \<^verbatim>\<open>null\<close>, \<^verbatim>\<open>false\<close>, \<^verbatim>\<open>0\<close> and the empty string are falsy, every array and object
  (also an empty one) is truthy.
\<close>

fun truthy :: "json \<Rightarrow> bool" where
  "truthy JNull = False"
| "truthy (JBool b) = b"
| "truthy (JNum n) = (n \<noteq> 0)"
| "truthy (JStr s) = (s \<noteq> [])"
| "truthy (JArr xs) = True"
| "truthy (JObj kvs) = True"

text \<open>
  A thrown value: an instance of \<^verbatim>\<open>Error\<close> with its message, or anything else
  (\<^verbatim>\<open>error instanceof Error\<close> is false).
\<close>

datatype thrown = Error string | NotAnError

text \<open>What \<^verbatim>\<open>await response.json()\<close> does: it yields the parsed body or throws.\<close>

datatype json_outcome = Parsed json | Unparseable thrown

text \<open>The fields of a \<^verbatim>\<open>Response\<close> that the service reads.\<close>

record response =
  ok :: bool
  status :: int
  json_body :: json_outcome

text \<open>What \<^verbatim>\<open>await fetch(...)\<close> does: the promise rejects, or it resolves with a response.\<close>

datatype fetch_outcome = Rejected thrown | Responded response

text \<open>\<^verbatim>\<open>interface ApiResponse<T> { data: T | null; error: string | null }\<close>\<close>

record api_response =
  data :: json
  error :: "string option"

subsection \<open>Constants of \<^verbatim>\<open>constants/api.ts\<close>\<close>

definition API_BASE_URL :: string where
  "API_BASE_URL = ''https://jsonplaceholder.typicode.com''"

definition API_ENDPOINTS_USERS :: string where
  "API_ENDPOINTS_USERS = API_BASE_URL @ ''/users''"

definition ERROR_MESSAGES_NETWORK_ERROR :: string where
  "ERROR_MESSAGES_NETWORK_ERROR = ''Network error occurred''"

definition ERROR_MESSAGES_UNKNOWN_ERROR :: string where
  "ERROR_MESSAGES_UNKNOWN_ERROR = ''An unknown error occurred''"

definition CACHE_DURATION :: int where
  "CACHE_DURATION = 5 * 60 * 1000"

subsection \<open>Integers in a template literal\<close>

definition digit_char :: "nat \<Rightarrow> char" where
  "digit_char n = ''0123456789'' ! n"

fun digits :: "nat \<Rightarrow> string" where
  "digits n = (if n < 10 then [digit_char n] else digits (n div 10) @ [digit_char (n mod 10)])"

declare digits.simps [simp del]

text \<open>The decimal rendering that \<^verbatim>\<open>${response.status}\<close> gives an integer.\<close>

definition number_to_string :: "int \<Rightarrow> string" where
  "number_to_string i = (if i < 0 then ''-'' @ digits (nat (- i)) else digits (nat i))"

section \<open>Asynchronous code\<close>

text \<open>
  An \<^verbatim>\<open>async\<close> function runs until it returns, throws, or suspends at an \<^verbatim>\<open>await\<close>. The
  service suspends in two places only: on \<^verbatim>\<open>fetch\<close> in \<open>makeRequest\<close> and on the
  \<^verbatim>\<open>setTimeout\<close> promise in \<open>retryRequest\<close>. A value of type \<open>'a proc\<close> is such a
  computation: finished with a value, finished with a rejection, waiting for the network
  (with what it does once \<^verbatim>\<open>fetch\<close> settles), or waiting for a timer of the given
  number of milliseconds.
\<close>

datatype 'a proc =
    Return 'a
  | Throw thrown
  | Fetch string "fetch_outcome \<Rightarrow> 'a proc"
  | Timeout int "'a proc"

text \<open>\<^verbatim>\<open>const x = await p; f(x)\<close>: a rejection of \<open>p\<close> propagates.\<close>

primrec await :: "'a proc \<Rightarrow> ('a \<Rightarrow> 'b proc) \<Rightarrow> 'b proc" where
  "await (Return x) f = f x"
| "await (Throw e) f = Throw e"
| "await (Fetch url k) f = Fetch url (\<lambda>out. await (k out) f)"
| "await (Timeout ms p) f = Timeout ms (await p f)"

subsection \<open>\<open>makeRequest\<close>\<close>

text \<open>
  The \<^verbatim>\<open>try\<close> block of \<open>makeRequest\<close>, from the point where \<^verbatim>\<open>fetch\<close> has settled:
  a rejection is thrown on, a response that is not ok throws the HTTP error, and
  \<^verbatim>\<open>response.json()\<close> either throws or gives the data. \<open>Inl\<close> is a throw inside the block.
\<close>

definition makeRequest_try :: "fetch_outcome \<Rightarrow> thrown + api_response" where
  "makeRequest_try out =
     (case out of
        Rejected e \<Rightarrow> Inl e
      | Responded response \<Rightarrow>
          if \<not> ok response
          then Inl (Error (''HTTP error! status: '' @ number_to_string (status response)))
          else (case json_body response of
                  Unparseable e \<Rightarrow> Inl e
                | Parsed d \<Rightarrow> Inr \<lparr>data = d, error = None\<rparr>))"

text \<open>The \<^verbatim>\<open>catch\<close> block of \<open>makeRequest\<close>.\<close>

definition makeRequest_catch :: "thrown \<Rightarrow> api_response" where
  "makeRequest_catch e =
     (let errorMessage = (case e of Error message \<Rightarrow> message
                                  | NotAnError \<Rightarrow> ERROR_MESSAGES_UNKNOWN_ERROR)
      in \<lparr>data = JNull, error = Some errorMessage\<rparr>)"

text \<open>The value with which the promise of \<open>makeRequest\<close> resolves once \<^verbatim>\<open>fetch\<close> has settled.\<close>

definition makeRequest_settle :: "fetch_outcome \<Rightarrow> api_response" where
  "makeRequest_settle out =
     (case makeRequest_try out of Inr r \<Rightarrow> r | Inl e \<Rightarrow> makeRequest_catch e)"

text \<open>
  \<open>makeRequest url\<close> with the default \<^verbatim>\<open>options = {}\<close>, which is how the service calls it
  (the request then carries the \<^verbatim>\<open>Content-Type\<close> header only, and a computation records
  the URL alone): it invokes \<^verbatim>\<open>fetch\<close> at once and suspends.
\<close>

definition makeRequest :: "string \<Rightarrow> api_response proc" where
  "makeRequest url = Fetch url (\<lambda>out. Return (makeRequest_settle out))"

subsection \<open>\<open>retryRequest\<close>\<close>

text \<open>The \<^verbatim>\<open>for\<close> loop of \<open>retryRequest\<close>, entered with the current value of \<^verbatim>\<open>attempt\<close>.\<close>

function retryRequest_loop ::
  "(unit \<Rightarrow> api_response proc) \<Rightarrow> int \<Rightarrow> int \<Rightarrow> int \<Rightarrow> api_response proc" where
  "retryRequest_loop requestFn maxRetries delay attempt =
     (if attempt \<le> maxRetries then
        await (requestFn ()) (\<lambda>result.
          if truthy (data result) then Return result
          else if attempt = maxRetries then Return result
          else Timeout (delay * attempt)
                 (retryRequest_loop requestFn maxRetries delay (attempt + 1)))
      else Return \<lparr>data = JNull, error = Some ERROR_MESSAGES_NETWORK_ERROR\<rparr>)"
  by pat_completeness auto
termination
  by (relation "measure (\<lambda>(requestFn, maxRetries, delay, attempt). nat (maxRetries + 1 - attempt))")
     auto

declare retryRequest_loop.simps [simp del]

definition retryRequest ::
  "(unit \<Rightarrow> api_response proc) \<Rightarrow> int \<Rightarrow> int \<Rightarrow> api_response proc" where
  "retryRequest requestFn maxRetries delay = retryRequest_loop requestFn maxRetries delay 1"

subsection \<open>Running a computation against a network\<close>

text \<open>What a computation did to the outside world, in order.\<close>

datatype effect = Fetched string | Waited int

text \<open>
  \<open>run net p n\<close> runs \<open>p\<close> to its end when nothing else happens in between: the \<open>i\<close>-th
  call of \<^verbatim>\<open>fetch\<close> settles with \<open>net i\<close> (\<open>n\<close> calls were made before), and every timer
  fires. It gives the value or the rejection, and the calls made.
\<close>

primrec run :: "(nat \<Rightarrow> fetch_outcome) \<Rightarrow> 'a proc \<Rightarrow> nat \<Rightarrow> (thrown + 'a) \<times> effect list" where
  "run net (Return x) = (\<lambda>n. (Inr x, []))"
| "run net (Throw e) = (\<lambda>n. (Inl e, []))"
| "run net (Fetch url k) =
     (\<lambda>n. case run net (k (net n)) (Suc n) of (r, effs) \<Rightarrow> (r, Fetched url # effs))"
| "run net (Timeout ms p) =
     (\<lambda>n. case run net p n of (r, effs) \<Rightarrow> (r, Waited ms # effs))"

section \<open>The service\<close>

text \<open>An entry of \<^verbatim>\<open>cache\<close>: \<^verbatim>\<open>{ data: any; timestamp: number }\<close>.\<close>

record cache_entry =
  cached_data :: json
  timestamp :: int

text \<open>
  A call of \<open>makeCachedRequest\<close> that has started a request and is suspended at
  \<^verbatim>\<open>await requestPromise\<close>: its \<^verbatim>\<open>cacheKey\<close>, the state of the promise that
  \<open>retryRequest\<close> gave it, and whether the call has gone through its \<^verbatim>\<open>finally\<close> block.
\<close>

record operation =
  op_key :: string
  op_promise :: "api_response proc"
  op_finished :: bool

text \<open>
  What a caller of \<open>makeCachedRequest\<close> holds: a promise that is already resolved, or one
  that settles as the promise of the operation with the given number does.
\<close>

datatype handle = Immediate api_response | Awaiting nat

text \<open>
  The two private maps of \<^verbatim>\<open>ApiService\<close>; the operations started so far (a promise in
  \<^verbatim>\<open>pendingRequests\<close> is the number of its operation); and, for stating properties, the
  calls made to \<^verbatim>\<open>fetch\<close> and \<^verbatim>\<open>setTimeout\<close> and the handles given to callers.
\<close>

record service =
  cache :: "string \<rightharpoonup> cache_entry"
  pendingRequests :: "string \<rightharpoonup> nat"
  operations :: "operation list"
  effects :: "effect list"
  returned :: "handle list"

definition new_service :: service where
  "new_service =
     \<lparr>cache = Map.empty, pendingRequests = Map.empty, operations = [], effects = [],
      returned = []\<rparr>"

text \<open>All functions that read the clock take \<^verbatim>\<open>Date.now()\<close> as their first argument.\<close>

definition getCachedData :: "int \<Rightarrow> string \<Rightarrow> service \<Rightarrow> json \<times> service" where
  "getCachedData now key s =
     (case cache s key of
        None \<Rightarrow> (JNull, s)
      | Some cached \<Rightarrow>
          let isExpired = (now - timestamp cached > CACHE_DURATION) in
          if isExpired then (JNull, s\<lparr>cache := (cache s)(key := None)\<rparr>)
          else (cached_data cached, s))"

definition setCachedData :: "int \<Rightarrow> string \<Rightarrow> json \<Rightarrow> service \<Rightarrow> service" where
  "setCachedData now key d s =
     s\<lparr>cache := (cache s)(key \<mapsto> \<lparr>cached_data = d, timestamp = now\<rparr>)\<rparr>"

text \<open>
  A computation that has just reached a \<^verbatim>\<open>fetch\<close> or a \<^verbatim>\<open>setTimeout\<close> has made that call.
\<close>

definition announce :: "api_response proc \<Rightarrow> service \<Rightarrow> service" where
  "announce p s =
     (case p of
        Fetch url k \<Rightarrow> s\<lparr>effects := effects s @ [Fetched url]\<rparr>
      | Timeout ms q \<Rightarrow> s\<lparr>effects := effects s @ [Waited ms]\<rparr>
      | _ \<Rightarrow> s)"

text \<open>
  \<open>makeCachedRequest\<close> up to its \<^verbatim>\<open>await\<close>. Calling \<open>retryRequest\<close> runs it, and
  \<open>makeRequest\<close> inside it, up to the first \<^verbatim>\<open>fetch\<close>; the promise is then stored in
  \<^verbatim>\<open>pendingRequests\<close> before anything else can run.
\<close>

definition makeCachedRequest :: "int \<Rightarrow> string \<Rightarrow> string \<Rightarrow> service \<Rightarrow> handle \<times> service" where
  "makeCachedRequest now url cacheKey s =
     (case getCachedData now cacheKey s of (cachedData, s1) \<Rightarrow>
        if truthy cachedData then (Immediate \<lparr>data = cachedData, error = None\<rparr>, s1)
        else
          (case pendingRequests s1 cacheKey of
             Some pendingRequest \<Rightarrow> (Awaiting pendingRequest, s1)
           | None \<Rightarrow>
               let requestPromise = retryRequest (\<lambda>_. makeRequest url) 3 1000;
                   n = length (operations s1);
                   s2 = announce requestPromise
                          (s1\<lparr>operations := operations s1 @
                                [\<lparr>op_key = cacheKey, op_promise = requestPromise,
                                  op_finished = False\<rparr>]\<rparr>);
                   s3 = s2\<lparr>pendingRequests := (pendingRequests s2)(cacheKey \<mapsto> n)\<rparr>
               in (Awaiting n, s3)))"

text \<open>
  \<open>makeCachedRequest\<close> from its \<^verbatim>\<open>await\<close> on, for the call that started operation \<open>n\<close>:
  it resumes once the promise has settled, stores truthy data, and deletes the pending
  entry in \<^verbatim>\<open>finally\<close>, also when the promise was rejected.
\<close>

definition makeCachedRequest_resume :: "int \<Rightarrow> nat \<Rightarrow> service \<Rightarrow> service" where
  "makeCachedRequest_resume now n s =
     (if n < length (operations s) \<and> \<not> op_finished (operations s ! n) then
        let opn = operations s ! n;
            finally = (\<lambda>s'. s'\<lparr>pendingRequests := (pendingRequests s')(op_key opn := None),
                              operations := (operations s')[n := opn\<lparr>op_finished := True\<rparr>]\<rparr>)
        in (case op_promise opn of
              Return result \<Rightarrow>
                finally (if truthy (data result)
                         then setCachedData now (op_key opn) (data result) s else s)
            | Throw e \<Rightarrow> finally s
            | _ \<Rightarrow> s)
      else s)"

text \<open>The public operations.\<close>

definition getUsers :: "int \<Rightarrow> service \<Rightarrow> handle \<times> service" where
  "getUsers now s = makeCachedRequest now API_ENDPOINTS_USERS ''users'' s"

text \<open>
  The argument \<open>uid\<close> (\<^verbatim>\<open>id\<close> in the source) is a JavaScript number, and both template literals render it with the
  platform's conversion of numbers to strings. That conversion is the parameter
  \<open>toString\<close>, so that ids that are not integers are covered; on integers it is
  \<open>number_to_string\<close>.
\<close>

definition getUserById :: "('n \<Rightarrow> string) \<Rightarrow> int \<Rightarrow> 'n \<Rightarrow> service \<Rightarrow> handle \<times> service" where
  "getUserById toString now uid s =
     makeCachedRequest now (API_ENDPOINTS_USERS @ ''/'' @ toString uid) (''user-'' @ toString uid) s"

definition clearCache :: "service \<Rightarrow> service" where
  "clearCache s = s\<lparr>cache := Map.empty\<rparr>"

definition clearCacheEntry :: "string \<Rightarrow> service \<Rightarrow> service" where
  "clearCacheEntry key s = s\<lparr>cache := (cache s)(key := None)\<rparr>"

subsection \<open>The event loop\<close>

text \<open>
  Operation \<open>n\<close> is waiting for \<^verbatim>\<open>fetch\<close>, and \<^verbatim>\<open>fetch\<close> settles: the operation runs on to
  its next suspension or to its end.
\<close>

definition fetch_settles :: "nat \<Rightarrow> fetch_outcome \<Rightarrow> service \<Rightarrow> service" where
  "fetch_settles n out s =
     (if n < length (operations s) then
        (case op_promise (operations s ! n) of
           Fetch url k \<Rightarrow>
             announce (k out)
               (s\<lparr>operations := (operations s)[n := (operations s ! n)\<lparr>op_promise := k out\<rparr>]\<rparr>)
         | _ \<Rightarrow> s)
      else s)"

text \<open>Operation \<open>n\<close> is waiting for its timer, and the timer fires.\<close>

definition timer_fires :: "nat \<Rightarrow> service \<Rightarrow> service" where
  "timer_fires n s =
     (if n < length (operations s) then
        (case op_promise (operations s ! n) of
           Timeout ms p \<Rightarrow>
             announce p
               (s\<lparr>operations := (operations s)[n := (operations s ! n)\<lparr>op_promise := p\<rparr>]\<rparr>)
         | _ \<Rightarrow> s)
      else s)"

text \<open>
  Everything that can happen to the service, one piece of synchronous code at a time: a
  caller invokes a public operation (\<open>Call url key\<close> is a call of \<open>makeCachedRequest\<close>;
  \<open>getUsers\<close> and \<open>getUserById\<close> are such calls), the platform settles a \<^verbatim>\<open>fetch\<close> or fires
  a timer, or a suspended \<open>makeCachedRequest\<close> resumes. An event that is not possible in a
  state (no such operation, or it is not waiting for this) changes nothing.
\<close>

datatype event =
    Call string string
  | FetchSettles nat fetch_outcome
  | TimerFires nat
  | Resumes nat
  | ClearCache
  | ClearCacheEntry string

text \<open>An event comes with the value of \<^verbatim>\<open>Date.now()\<close> while it runs.\<close>

fun step :: "int \<times> event \<Rightarrow> service \<Rightarrow> service" where
  "step (now, Call url key) s =
     (case makeCachedRequest now url key s of (h, s') \<Rightarrow> s'\<lparr>returned := returned s' @ [h]\<rparr>)"
| "step (now, FetchSettles n out) s = fetch_settles n out s"
| "step (now, TimerFires n) s = timer_fires n s"
| "step (now, Resumes n) s = makeCachedRequest_resume now n s"
| "step (now, ClearCache) s = clearCache s"
| "step (now, ClearCacheEntry key) s = clearCacheEntry key s"

fun exec :: "(int \<times> event) list \<Rightarrow> service \<Rightarrow> service" where
  "exec [] s = s"
| "exec (e # es) s = exec es (step e s)"

text \<open>How the promise behind a handle has settled, if it has.\<close>

definition settled :: "service \<Rightarrow> handle \<Rightarrow> (thrown + api_response) option" where
  "settled s h =
     (case h of
        Immediate r \<Rightarrow> Some (Inr r)
      | Awaiting n \<Rightarrow>
          if n < length (operations s) then
            (case op_promise (operations s ! n) of
               Return r \<Rightarrow> Some (Inr r)
             | Throw e \<Rightarrow> Some (Inl e)
             | _ \<Rightarrow> None)
          else None)"

text \<open>The operations for a key whose call has not yet left \<open>makeCachedRequest\<close>.\<close>

definition outstanding :: "service \<Rightarrow> string \<Rightarrow> nat list" where
  "outstanding s key =
     filter (\<lambda>n. op_key (operations s ! n) = key \<and> \<not> op_finished (operations s ! n))
       [0 ..< length (operations s)]"

section \<open>Properties of reachable states\<close>

text \<open>The ways in which a computation can end, whatever the network does.\<close>

primrec ends :: "'a proc \<Rightarrow> (thrown + 'a) set" where
  "ends (Return x) = {Inr x}"
| "ends (Throw e) = {Inl e}"
| "ends (Fetch url k) = (\<Union>out. ends (k out))"
| "ends (Timeout ms p) = ends p"

text \<open>
  The two maps and the list of operations fit together: a pending entry names an operation
  for that key whose call is still inside \<open>makeCachedRequest\<close>, every such operation has
  its pending entry, cached data is truthy, and a key with a pending entry has no cache
  entry.
\<close>

definition tables_ok :: "service \<Rightarrow> bool" where
  "tables_ok s \<longleftrightarrow>
     (\<forall>k n. pendingRequests s k = Some n \<longrightarrow>
        n < length (operations s) \<and> op_key (operations s ! n) = k \<and>
        \<not> op_finished (operations s ! n)) \<and>
     (\<forall>n<length (operations s). \<not> op_finished (operations s ! n) \<longrightarrow>
        pendingRequests s (op_key (operations s ! n)) = Some n) \<and>
     (\<forall>k e. cache s k = Some e \<longrightarrow> truthy (cached_data e)) \<and>
     (\<forall>k. pendingRequests s k \<noteq> None \<longrightarrow> cache s k = None)"

text \<open>A handle is a cache hit, or it names an operation that exists.\<close>

definition handle_ok :: "service \<Rightarrow> handle \<Rightarrow> bool" where
  "handle_ok s h =
     (case h of
        Immediate r \<Rightarrow> truthy (data r) \<and> error r = None
      | Awaiting n \<Rightarrow> n < length (operations s))"

text \<open>
  Every operation can only end by resolving with what some call of \<open>makeRequest\<close> resolved
  with, and every handle given out is sound.
\<close>

definition promises_ok :: "service \<Rightarrow> bool" where
  "promises_ok s \<longleftrightarrow>
     (\<forall>n<length (operations s).
        ends (op_promise (operations s ! n)) \<subseteq> Inr ` range makeRequest_settle) \<and>
     (\<forall>h\<in>set (returned s). handle_ok s h)"

definition consistent :: "service \<Rightarrow> bool" where
  "consistent s \<longleftrightarrow> tables_ok s \<and> promises_ok s"

subsection \<open>Notions used to state the properties\<close>

text \<open>A network on which every call of \<^verbatim>\<open>fetch\<close> settles in the same way.\<close>

definition always :: "fetch_outcome \<Rightarrow> nat \<Rightarrow> fetch_outcome" where
  "always out i = out"

text \<open>The URLs fetched and the delays waited for, in order.\<close>

primrec fetches :: "effect list \<Rightarrow> string list" where
  "fetches [] = []"
| "fetches (e # es) = (case e of Fetched url \<Rightarrow> url # fetches es | Waited ms \<Rightarrow> fetches es)"

primrec waits :: "effect list \<Rightarrow> int list" where
  "waits [] = []"
| "waits (e # es) = (case e of Fetched url \<Rightarrow> waits es | Waited ms \<Rightarrow> ms # waits es)"

subsection \<open>Sample calls and network behaviour\<close>

text \<open>The calls that the two public fetch operations make, as events; ids are integers here.\<close>

definition GetUsers :: event where
  "GetUsers = Call API_ENDPOINTS_USERS ''users''"

definition GetUserById :: "int \<Rightarrow> event" where
  "GetUserById uid =
     Call (API_ENDPOINTS_USERS @ ''/'' @ number_to_string uid) (''user-'' @ number_to_string uid)"

text \<open>
  The responses that the tests of the service mock: a 2xx response with a JSON body, and a
  response with an error status.
\<close>

definition ok_response :: "json \<Rightarrow> fetch_outcome" where
  "ok_response d = Responded \<lparr>ok = True, status = 200, json_body = Parsed d\<rparr>"

definition error_response :: "int \<Rightarrow> fetch_outcome" where
  "error_response st = Responded \<lparr>ok = False, status = st, json_body = Parsed (JObj [])\<rparr>"

text \<open>
  Two histories of a fresh service. In the first, \<open>getUsers\<close> is called at time 0, the
  response arrives at time 5 and the call returns at time 6. In the second, all three
  attempts of a \<open>getUsers\<close> call get status 500; the call has not yet resumed.
\<close>

definition sample_users :: json where
  "sample_users = JArr [JObj [(''id'', JNum 1), (''name'', JStr ''Alice'')]]"

definition users_loaded :: "(int \<times> event) list" where
  "users_loaded = [(0, GetUsers), (5, FetchSettles 0 (ok_response sample_users)), (6, Resumes 0)]"

definition users_failing :: "(int \<times> event) list" where
  "users_failing =
     [(0, GetUsers), (5, FetchSettles 0 (error_response 500)), (1005, TimerFires 0),
      (1010, FetchSettles 0 (error_response 500)), (3010, TimerFires 0),
      (3015, FetchSettles 0 (error_response 500))]"

text \<open>
  The events that the platform sends to operation \<open>n\<close> when it runs the computation \<open>p\<close>
  as \<open>run\<close> does: the \<open>i\<close>-th call of \<^verbatim>\<open>fetch\<close> settles with \<open>net i\<close>, and every timer
  fires. (Neither event reads the clock.)
\<close>

primrec drive :: "nat \<Rightarrow> (nat \<Rightarrow> fetch_outcome) \<Rightarrow> 'a proc \<Rightarrow> nat \<Rightarrow> (int \<times> event) list" where
  "drive n net (Return x) = (\<lambda>i. [])"
| "drive n net (Throw e) = (\<lambda>i. [])"
| "drive n net (Fetch url k) = (\<lambda>i. (0, FetchSettles n (net i)) # drive n net (k (net i)) (Suc i))"
| "drive n net (Timeout ms p) = (\<lambda>i. (0, TimerFires n) # drive n net p i)"

subsection \<open>What the network delivered to an operation\<close>

text \<open>
  \<open>delivered es s n\<close> lists, in order, the outcomes with which the \<^verbatim>\<open>fetch\<close> calls of
  operation \<open>n\<close> settled while the events \<open>es\<close> ran from the state \<open>s\<close>. A settlement
  counts when the operation was waiting for \<^verbatim>\<open>fetch\<close>; any other has no effect on it.
\<close>

definition awaits_fetch :: "'a proc \<Rightarrow> bool" where
  "awaits_fetch p = (case p of Fetch url k \<Rightarrow> True | _ \<Rightarrow> False)"

definition delivery :: "int \<times> event \<Rightarrow> service \<Rightarrow> nat \<Rightarrow> fetch_outcome list" where
  "delivery e s n =
     (case snd e of
        FetchSettles m out \<Rightarrow>
          if m = n \<and> n < length (operations s) \<and> awaits_fetch (op_promise (operations s ! n))
          then [out] else []
      | _ \<Rightarrow> [])"

fun delivered :: "(int \<times> event) list \<Rightarrow> service \<Rightarrow> nat \<Rightarrow> fetch_outcome list" where
  "delivered [] s n = []"
| "delivered (e # es) s n = delivery e s n @ delivered es (step e s) n"

text \<open>
  Where an operation of the service can be, given what has been delivered to it: about to
  make an attempt of the loop of \<open>retryRequest\<close> with the defaults, waiting before the
  next attempt, or resolved with what \<open>makeRequest\<close> made of the last delivery.
\<close>

definition is_loop :: "api_response proc \<Rightarrow> bool" where
  "is_loop p \<longleftrightarrow>
     (\<exists>url attempt. attempt \<le> 3 \<and> p = retryRequest_loop (\<lambda>_. makeRequest url) 3 1000 attempt)"

definition progress_ok :: "fetch_outcome list \<Rightarrow> api_response proc \<Rightarrow> bool" where
  "progress_ok received p \<longleftrightarrow>
     is_loop p \<or> (\<exists>ms q. p = Timeout ms q \<and> is_loop q) \<or>
     (received \<noteq> [] \<and> p = Return (makeRequest_settle (last received)))"

definition provenance :: "(nat \<Rightarrow> fetch_outcome list) \<Rightarrow> service \<Rightarrow> bool" where
  "provenance hs s \<longleftrightarrow>
     (\<forall>n<length (operations s). progress_ok (hs n) (op_promise (operations s ! n)))"

section \<open>Lemmas\<close>

lemma retryRequest_loop_makeRequest:
  "retryRequest_loop (\<lambda>_. makeRequest url) m d a =
     (if a \<le> m then
        Fetch url (\<lambda>out.
          if truthy (data (makeRequest_settle out)) \<or> a = m then Return (makeRequest_settle out)
          else Timeout (d * a) (retryRequest_loop (\<lambda>_. makeRequest url) m d (a + 1)))
      else Return \<lparr>data = JNull, error = Some ERROR_MESSAGES_NETWORK_ERROR\<rparr>)"
  by (subst retryRequest_loop.simps) (auto simp: makeRequest_def)

lemma retryRequest_Fetch:
  "retryRequest (\<lambda>_. makeRequest url) 3 1000 =
     Fetch url (\<lambda>out.
          if truthy (data (makeRequest_settle out)) then Return (makeRequest_settle out)
          else Timeout 1000 (retryRequest_loop (\<lambda>_. makeRequest url) 3 1000 2))"
  unfolding retryRequest_def by (subst retryRequest_loop_makeRequest) (simp cong: if_cong)

lemma getCachedData_fields [simp]:
  "pendingRequests (snd (getCachedData now key s)) = pendingRequests s"
  "operations (snd (getCachedData now key s)) = operations s"
  "effects (snd (getCachedData now key s)) = effects s"
  "returned (snd (getCachedData now key s)) = returned s"
  by (auto simp: getCachedData_def Let_def split: option.splits)

lemma getCachedData_cache:
  "cache (snd (getCachedData now key s)) = cache s \<or>
   cache (snd (getCachedData now key s)) = (cache s)(key := None)"
  by (auto simp: getCachedData_def Let_def split: option.splits)

lemma tables_ok_shrink:
  assumes "tables_ok s" "pendingRequests s' = pendingRequests s" "operations s' = operations s"
    and "\<And>k. cache s' k = None \<or> cache s' k = cache s k"
  shows "tables_ok s'"
  unfolding tables_ok_def
proof (intro conjI allI impI)
  fix k e assume "cache s' k = Some e"
  then have "cache s k = Some e" using assms(4)[of k] by auto
  then show "truthy (cached_data e)" using assms(1) by (simp add: tables_ok_def)
next
  fix k assume "pendingRequests s' k \<noteq> None"
  then have "cache s k = None" using assms(1,2) by (simp add: tables_ok_def)
  then show "cache s' k = None" using assms(4)[of k] by auto
qed (use assms(1-3) in \<open>simp_all add: tables_ok_def\<close>)

lemma tables_ok_getCachedData: "tables_ok s \<Longrightarrow> tables_ok (snd (getCachedData now key s))"
  using getCachedData_cache[of now key s] by (auto intro!: tables_ok_shrink[of s])

lemma getCachedData_miss:
  assumes "tables_ok s" "\<not> truthy (fst (getCachedData now key s))"
  shows "cache (snd (getCachedData now key s)) key = None"
  using assms
  by (auto simp: tables_ok_def getCachedData_def Let_def split: option.splits)

lemma makeCachedRequest_hit:
  assumes "getCachedData now key s = (d, s1)" "truthy d"
  shows "makeCachedRequest now url key s = (Immediate \<lparr>data = d, error = None\<rparr>, s1)"
  using assms by (simp add: makeCachedRequest_def)

lemma makeCachedRequest_join:
  assumes "getCachedData now key s = (d, s1)" "\<not> truthy d" "pendingRequests s1 key = Some n"
  shows "makeCachedRequest now url key s = (Awaiting n, s1)"
  using assms by (simp add: makeCachedRequest_def)

lemma makeCachedRequest_start:
  assumes "getCachedData now key s = (d, s1)" "\<not> truthy d" "pendingRequests s1 key = None"
  shows "makeCachedRequest now url key s =
           (Awaiting (length (operations s1)),
            s1\<lparr>operations := operations s1 @
                  [\<lparr>op_key = key, op_promise = retryRequest (\<lambda>_. makeRequest url) 3 1000,
                    op_finished = False\<rparr>],
               effects := effects s1 @ [Fetched url],
               pendingRequests := (pendingRequests s1)(key \<mapsto> length (operations s1))\<rparr>)"
  using assms by (simp add: makeCachedRequest_def Let_def announce_def retryRequest_Fetch)

lemma tables_ok_frame:
  assumes "tables_ok s" "pendingRequests s' = pendingRequests s"
    and "length (operations s') = length (operations s)"
    and "\<And>m. m < length (operations s) \<Longrightarrow>
           op_key (operations s' ! m) = op_key (operations s ! m) \<and>
           op_finished (operations s' ! m) = op_finished (operations s ! m)"
    and "cache s' = cache s"
  shows "tables_ok s'"
  using assms unfolding tables_ok_def by simp

lemma tables_okI:
  assumes "\<And>k n. pendingRequests s k = Some n \<Longrightarrow>
             n < length (operations s) \<and> op_key (operations s ! n) = k \<and>
             \<not> op_finished (operations s ! n)"
    and "\<And>n. n < length (operations s) \<Longrightarrow> \<not> op_finished (operations s ! n) \<Longrightarrow>
             pendingRequests s (op_key (operations s ! n)) = Some n"
    and "\<And>k e. cache s k = Some e \<Longrightarrow> truthy (cached_data e)"
    and "\<And>k. pendingRequests s k \<noteq> None \<Longrightarrow> cache s k = None"
  shows "tables_ok s"
  unfolding tables_ok_def using assms by blast

lemma tables_ok_start:
  assumes ok: "tables_ok s" and c: "cache s key = None" and p: "pendingRequests s key = None"
    and ops: "operations s' = operations s @ [opn]" and opn: "op_key opn = key" "\<not> op_finished opn"
    and pend: "pendingRequests s' = (pendingRequests s)(key \<mapsto> length (operations s))"
    and cache: "cache s' = cache s"
  shows "tables_ok s'"
proof (rule tables_okI)
  fix k n
  assume "pendingRequests s' k = Some n"
  then have "(k = key \<and> n = length (operations s)) \<or> (k \<noteq> key \<and> pendingRequests s k = Some n)"
    by (auto simp: pend split: if_splits)
  then show "n < length (operations s') \<and> op_key (operations s' ! n) = k \<and>
        \<not> op_finished (operations s' ! n)"
    using ok opn by (auto simp: tables_ok_def nth_append ops)
next
  fix n
  assume n: "n < length (operations s')" and u: "\<not> op_finished (operations s' ! n)"
  show "pendingRequests s' (op_key (operations s' ! n)) = Some n"
  proof (cases "n < length (operations s)")
    case True
    then have "pendingRequests s (op_key (operations s ! n)) = Some n"
      using ok u by (simp add: tables_ok_def nth_append ops)
    then show ?thesis using True p by (auto simp: nth_append ops pend)
  next
    case False
    then have "n = length (operations s)" using n by (simp add: ops)
    then show ?thesis by (simp add: ops pend opn)
  qed
next
  fix k e
  assume "cache s' k = Some e"
  then show "truthy (cached_data e)" using ok by (simp add: tables_ok_def cache)
next
  fix k
  assume "pendingRequests s' k \<noteq> None"
  then show "cache s' k = None"
    using ok c by (auto simp: tables_ok_def pend cache split: if_splits)
qed

lemma tables_ok_finish:
  assumes ok: "tables_ok s" and n: "n < length (operations s)"
    and u: "\<not> op_finished (operations s ! n)"
    and ops: "operations s' = (operations s)[n := (operations s ! n)\<lparr>op_finished := True\<rparr>]"
    and pend: "pendingRequests s' = (pendingRequests s)(op_key (operations s ! n) := None)"
    and cache: "\<And>k. cache s' k = cache s k \<or>
                (k = op_key (operations s ! n) \<and> (\<exists>e. cache s' k = Some e \<and> truthy (cached_data e)))"
  shows "tables_ok s'"
proof (rule tables_okI)
  have pn: "pendingRequests s (op_key (operations s ! n)) = Some n"
    using ok n u by (simp add: tables_ok_def)
  {
    fix k m
    assume a: "pendingRequests s' k = Some m"
    then have k: "k \<noteq> op_key (operations s ! n)" and pm: "pendingRequests s k = Some m"
      by (auto simp: pend split: if_splits)
    have m: "m < length (operations s)" "op_key (operations s ! m) = k"
      "\<not> op_finished (operations s ! m)"
      using ok pm by (auto simp: tables_ok_def)
    then have "m \<noteq> n" using k by auto
    then show "m < length (operations s') \<and> op_key (operations s' ! m) = k \<and>
        \<not> op_finished (operations s' ! m)"
      using m by (simp add: ops)
  next
    fix m
    assume m: "m < length (operations s')" and um: "\<not> op_finished (operations s' ! m)"
    have mn: "m \<noteq> n" using um m n by (auto simp: ops)
    then have um': "\<not> op_finished (operations s ! m)" and m': "m < length (operations s)"
      using um m by (auto simp: ops)
    then have pm: "pendingRequests s (op_key (operations s ! m)) = Some m"
      using ok by (simp add: tables_ok_def)
    then have "op_key (operations s ! m) \<noteq> op_key (operations s ! n)"
      using pn mn by auto
    then show "pendingRequests s' (op_key (operations s' ! m)) = Some m"
      using pm mn by (simp add: ops pend)
  next
    fix k e
    assume "cache s' k = Some e"
    then show "truthy (cached_data e)"
      using ok cache[of k] by (auto simp: tables_ok_def)
  next
    fix k
    assume "pendingRequests s' k \<noteq> None"
    then have "k \<noteq> op_key (operations s ! n)" "pendingRequests s k \<noteq> None"
      by (auto simp: pend split: if_splits)
    then show "cache s' k = None"
      using ok cache[of k] by (auto simp: tables_ok_def)
  }
qed

lemma tables_ok_makeCachedRequest:
  assumes "tables_ok s"
  shows "tables_ok (snd (makeCachedRequest now url key s))"
proof -
  obtain d s1 where g: "getCachedData now key s = (d, s1)" by force
  have s1: "tables_ok s1" using tables_ok_getCachedData[OF assms, of now key] g by simp
  show ?thesis
  proof (cases "truthy d")
    case True
    then show ?thesis using s1 by (simp add: makeCachedRequest_hit[OF g])
  next
    case False
    have c: "cache s1 key = None" using getCachedData_miss[OF assms, of now key] g False by simp
    show ?thesis
    proof (cases "pendingRequests s1 key")
      case (Some n)
      then show ?thesis using s1 by (simp add: makeCachedRequest_join[OF g False])
    next
      case None
      show ?thesis
        unfolding makeCachedRequest_start[OF g False None] snd_conv
        by (rule tables_ok_start[OF s1 c None, where opn = "\<lparr>op_key = key,
              op_promise = retryRequest (\<lambda>_. makeRequest url) 3 1000, op_finished = False\<rparr>"])
           simp_all
    qed
  qed
qed

lemma announce_fields [simp]:
  "cache (announce p s) = cache s"
  "pendingRequests (announce p s) = pendingRequests s"
  "operations (announce p s) = operations s"
  "returned (announce p s) = returned s"
  by (simp_all add: announce_def split: proc.splits)

lemma tables_ok_fetch_settles:
  assumes "tables_ok s"
  shows "tables_ok (fetch_settles n out s)"
proof (cases "n < length (operations s)")
  case True
  show ?thesis
  proof (cases "op_promise (operations s ! n)")
    case (Fetch url k)
    show ?thesis
      by (rule tables_ok_frame[OF assms])
         (simp_all add: fetch_settles_def True Fetch nth_list_update)
  qed (simp_all add: fetch_settles_def assms)
qed (simp add: fetch_settles_def assms)

lemma tables_ok_timer_fires:
  assumes "tables_ok s"
  shows "tables_ok (timer_fires n s)"
proof (cases "n < length (operations s)")
  case True
  show ?thesis
  proof (cases "op_promise (operations s ! n)")
    case (Timeout ms p)
    show ?thesis
      by (rule tables_ok_frame[OF assms])
         (simp_all add: timer_fires_def True Timeout nth_list_update)
  qed (simp_all add: timer_fires_def assms)
qed (simp add: timer_fires_def assms)

lemma tables_ok_resume:
  assumes "tables_ok s"
  shows "tables_ok (makeCachedRequest_resume now n s)"
proof (cases "n < length (operations s) \<and> \<not> op_finished (operations s ! n)")
  case True
  then have n: "n < length (operations s)" and u: "\<not> op_finished (operations s ! n)" by auto
  show ?thesis
  proof (cases "op_promise (operations s ! n)")
    case (Return result)
    show ?thesis
      by (rule tables_ok_finish[OF assms n u])
         (simp_all add: makeCachedRequest_resume_def True Return Let_def setCachedData_def)
  next
    case (Throw e)
    show ?thesis
      by (rule tables_ok_finish[OF assms n u])
         (simp_all add: makeCachedRequest_resume_def True Throw Let_def)
  qed (simp_all add: makeCachedRequest_resume_def assms Let_def)
qed (auto simp add: makeCachedRequest_resume_def assms)

lemma tables_ok_clearCache: "tables_ok s \<Longrightarrow> tables_ok (clearCache s)"
  by (rule tables_ok_shrink[of s]) (simp_all add: clearCache_def)

lemma tables_ok_clearCacheEntry: "tables_ok s \<Longrightarrow> tables_ok (clearCacheEntry key s)"
  by (rule tables_ok_shrink[of s]) (simp_all add: clearCacheEntry_def)

lemma tables_ok_returned: "tables_ok s \<Longrightarrow> tables_ok (s\<lparr>returned := hs\<rparr>)"
  by (simp add: tables_ok_def)

lemma tables_ok_step: "tables_ok s \<Longrightarrow> tables_ok (step e s)"
proof (cases e)
  case (Pair now ev)
  assume ok: "tables_ok s"
  show ?thesis
  proof (cases ev)
    case (Call url key)
    then show ?thesis
      using tables_ok_makeCachedRequest[OF ok, of now url key] Pair
      by (auto simp: tables_ok_returned split: prod.splits)
  qed (simp_all add: Pair ok tables_ok_fetch_settles tables_ok_timer_fires tables_ok_resume
        tables_ok_clearCache tables_ok_clearCacheEntry)
qed

lemma tables_ok_new_service: "tables_ok new_service"
  by (simp add: tables_ok_def new_service_def)

lemma tables_ok_exec: "tables_ok s \<Longrightarrow> tables_ok (exec es s)"
  by (induction es arbitrary: s) (simp_all add: tables_ok_step)

lemma ends_retryRequest_loop:
  "a \<le> m \<Longrightarrow> ends (retryRequest_loop (\<lambda>_. makeRequest url) m d a) \<subseteq> Inr ` range makeRequest_settle"
proof (induction "nat (m - a)" arbitrary: a)
  case 0
  then have "a = m" by simp
  then show ?case
    by (subst retryRequest_loop_makeRequest) auto
next
  case (Suc x)
  then have "x = nat (m - (a + 1))" "a + 1 \<le> m" by auto
  then have ih: "ends (retryRequest_loop (\<lambda>_. makeRequest url) m d (a + 1))
                   \<subseteq> Inr ` range makeRequest_settle"
    using Suc.hyps(1) by blast
  show ?case
    apply (subst retryRequest_loop_makeRequest)
    using ih Suc.prems by (auto split: if_splits)
qed

lemma ends_request:
  "ends (retryRequest (\<lambda>_. makeRequest url) 3 1000) \<subseteq> Inr ` range makeRequest_settle"
  unfolding retryRequest_def by (rule ends_retryRequest_loop) simp

lemma handle_ok_mono:
  "handle_ok s h \<Longrightarrow> length (operations s) \<le> length (operations s') \<Longrightarrow> handle_ok s' h"
  by (auto simp: handle_ok_def split: handle.splits)

lemma promises_okI:
  assumes "\<And>n. n < length (operations s) \<Longrightarrow>
             ends (op_promise (operations s ! n)) \<subseteq> Inr ` range makeRequest_settle"
    and "\<And>h. h \<in> set (returned s) \<Longrightarrow> handle_ok s h"
  shows "promises_ok s"
  unfolding promises_ok_def using assms by blast

lemma handle_ok_cong:
  "length (operations s') = length (operations s) \<Longrightarrow> handle_ok s' h = handle_ok s h"
  by (simp add: handle_ok_def split: handle.splits)

lemma promises_ok_frame:
  assumes "promises_ok s" "operations s' = operations s" "returned s' = returned s"
  shows "promises_ok s'"
  using assms handle_ok_cong[of s' s] by (simp add: promises_ok_def)

lemma promises_ok_return:
  assumes "promises_ok s" "handle_ok s h"
  shows "promises_ok (s\<lparr>returned := returned s @ [h]\<rparr>)"
  using assms handle_ok_cong[of "s\<lparr>returned := returned s @ [h]\<rparr>" s]
  by (auto simp: promises_ok_def)

lemma promises_ok_advance:
  assumes ok: "promises_ok s" and n: "n < length (operations s)"
    and ops: "operations s' = (operations s)[n := (operations s ! n)\<lparr>op_promise := p\<rparr>]"
    and p: "ends p \<subseteq> ends (op_promise (operations s ! n))"
    and ret: "returned s' = returned s"
  shows "promises_ok s'"
proof (rule promises_okI)
  fix m assume "m < length (operations s')"
  then have m: "m < length (operations s)" by (simp add: ops)
  then have "ends (op_promise (operations s ! m)) \<subseteq> Inr ` range makeRequest_settle"
    using ok by (simp add: promises_ok_def)
  then show "ends (op_promise (operations s' ! m)) \<subseteq> Inr ` range makeRequest_settle"
    using p m by (cases "m = n") (auto simp: ops)
next
  fix h assume "h \<in> set (returned s')"
  then have "handle_ok s h" using ok by (simp add: promises_ok_def ret)
  then show "handle_ok s' h" by (rule handle_ok_mono) (simp add: ops)
qed

lemma promises_ok_getCachedData:
  "promises_ok s \<Longrightarrow> promises_ok (snd (getCachedData now key s))"
  by (rule promises_ok_frame) simp_all

lemma getCachedData_truthy:
  assumes "getCachedData now key s = (d, s1)" "truthy d"
  shows "s1 = s \<and> (\<exists>e. cache s key = Some e \<and> cached_data e = d \<and>
           \<not> now - timestamp e > CACHE_DURATION)"
  using assms by (auto simp: getCachedData_def Let_def split: option.splits if_splits)

lemma promises_ok_call:
  assumes t: "tables_ok s" and ok: "promises_ok s"
    and m: "makeCachedRequest now url key s = (h, s')"
  shows "promises_ok (s'\<lparr>returned := returned s' @ [h]\<rparr>)"
proof -
  obtain d s1 where g: "getCachedData now key s = (d, s1)" by force
  have s1: "promises_ok s1" "tables_ok s1"
    using promises_ok_getCachedData[OF ok, of now key] tables_ok_getCachedData[OF t, of now key] g
    by simp_all
  show ?thesis
  proof (cases "truthy d")
    case True
    then have "h = Immediate \<lparr>data = d, error = None\<rparr>" "s' = s1"
      using m makeCachedRequest_hit[OF g True, of url] by simp_all
    then show ?thesis using s1 True by (auto intro!: promises_ok_return simp: handle_ok_def)
  next
    case False
    show ?thesis
    proof (cases "pendingRequests s1 key")
      case (Some n)
      then have hs: "h = Awaiting n" "s' = s1"
        using m makeCachedRequest_join[OF g False Some, of url] by simp_all
      have "n < length (operations s1)" using s1(2) Some by (simp add: tables_ok_def)
      then show ?thesis using s1 hs by (auto intro!: promises_ok_return simp: handle_ok_def)
    next
      case None
      have hs: "h = Awaiting (length (operations s1))"
        "operations s' = operations s1 @
                  [\<lparr>op_key = key, op_promise = retryRequest (\<lambda>_. makeRequest url) 3 1000,
                    op_finished = False\<rparr>]"
        "returned s' = returned s1"
        using m makeCachedRequest_start[OF g False None, of url] by auto
      show ?thesis
      proof (rule promises_okI)
        fix n assume "n < length (operations (s'\<lparr>returned := returned s' @ [h]\<rparr>))"
        then have "n < length (operations s1) \<or> n = length (operations s1)"
          by (auto simp: hs)
        then show "ends (op_promise (operations (s'\<lparr>returned := returned s' @ [h]\<rparr>) ! n))
                     \<subseteq> Inr ` range makeRequest_settle"
          using s1(1) ends_request[of url] by (auto simp: hs nth_append promises_ok_def)
      next
        fix h' assume "h' \<in> set (returned (s'\<lparr>returned := returned s' @ [h]\<rparr>))"
        then have "h' = h \<or> h' \<in> set (returned s1)" by (auto simp: hs)
        then show "handle_ok (s'\<lparr>returned := returned s' @ [h]\<rparr>) h'"
        proof
          assume "h' = h" then show ?thesis by (simp add: handle_ok_def hs)
        next
          assume "h' \<in> set (returned s1)"
          then have "handle_ok s1 h'" using s1(1) by (simp add: promises_ok_def)
          then show ?thesis by (rule handle_ok_mono) (simp add: hs)
        qed
      qed
    qed
  qed
qed

lemma promises_ok_fetch_settles:
  assumes "promises_ok s"
  shows "promises_ok (fetch_settles n out s)"
proof (cases "n < length (operations s)")
  case True
  show ?thesis
  proof (cases "op_promise (operations s ! n)")
    case (Fetch url k)
    show ?thesis
      by (rule promises_ok_advance[OF assms True, where p = "k out"])
         (auto simp add: fetch_settles_def True Fetch)
  qed (simp_all add: fetch_settles_def assms)
qed (simp add: fetch_settles_def assms)

lemma promises_ok_timer_fires:
  assumes "promises_ok s"
  shows "promises_ok (timer_fires n s)"
proof (cases "n < length (operations s)")
  case True
  show ?thesis
  proof (cases "op_promise (operations s ! n)")
    case (Timeout ms p)
    show ?thesis
      by (rule promises_ok_advance[OF assms True, where p = p])
         (auto simp add: timer_fires_def True Timeout)
  qed (simp_all add: timer_fires_def assms)
qed (simp add: timer_fires_def assms)

lemma promises_ok_finish:
  assumes ok: "promises_ok s" and n: "n < length (operations s)"
    and ops: "operations s' = (operations s)[n := (operations s ! n)\<lparr>op_finished := True\<rparr>]"
    and ret: "returned s' = returned s"
  shows "promises_ok s'"
proof (rule promises_okI)
  fix m assume "m < length (operations s')"
  then have m: "m < length (operations s)" by (simp add: ops)
  then have "ends (op_promise (operations s ! m)) \<subseteq> Inr ` range makeRequest_settle"
    using ok by (simp add: promises_ok_def)
  then show "ends (op_promise (operations s' ! m)) \<subseteq> Inr ` range makeRequest_settle"
    using m by (cases "m = n") (auto simp: ops)
next
  fix h assume "h \<in> set (returned s')"
  then have "handle_ok s h" using ok by (simp add: promises_ok_def ret)
  then show "handle_ok s' h" by (rule handle_ok_mono) (simp add: ops)
qed

lemma promises_ok_resume:
  assumes "promises_ok s"
  shows "promises_ok (makeCachedRequest_resume now n s)"
proof (cases "n < length (operations s) \<and> \<not> op_finished (operations s ! n)")
  case True
  then have n: "n < length (operations s)" by auto
  show ?thesis
  proof (cases "op_promise (operations s ! n)")
    case (Return result)
    show ?thesis
      by (rule promises_ok_finish[OF assms n])
         (simp_all add: makeCachedRequest_resume_def True Return Let_def setCachedData_def)
  next
    case (Throw e)
    show ?thesis
      by (rule promises_ok_finish[OF assms n])
         (simp_all add: makeCachedRequest_resume_def True Throw Let_def)
  qed (simp_all add: makeCachedRequest_resume_def assms Let_def)
qed (auto simp add: makeCachedRequest_resume_def assms)

lemma consistent_step: "consistent s \<Longrightarrow> consistent (step e s)"
proof (cases e)
  case (Pair now ev)
  assume ok: "consistent s"
  then have t: "tables_ok s" and p: "promises_ok s" by (simp_all add: consistent_def)
  have "promises_ok (step e s)"
  proof (cases ev)
    case (Call url key)
    obtain h s' where m: "makeCachedRequest now url key s = (h, s')" by force
    show ?thesis using promises_ok_call[OF t p m] by (simp add: Pair Call m)
  next
    case ClearCache
    show ?thesis by (rule promises_ok_frame[OF p]) (simp_all add: Pair ClearCache clearCache_def)
  next
    case (ClearCacheEntry k)
    show ?thesis
      by (rule promises_ok_frame[OF p]) (simp_all add: Pair ClearCacheEntry clearCacheEntry_def)
  qed (simp_all add: Pair p promises_ok_fetch_settles promises_ok_timer_fires promises_ok_resume)
  then show ?thesis using tables_ok_step[OF t, of e] by (simp add: consistent_def)
qed

lemma consistent_exec: "consistent s \<Longrightarrow> consistent (exec es s)"
  by (induction es arbitrary: s) (simp_all add: consistent_step)

lemma consistent_new_service: "consistent new_service"
  by (simp add: consistent_def tables_ok_def promises_ok_def new_service_def)

lemma consistent_reachable: "consistent (exec es new_service)"
  by (rule consistent_exec[OF consistent_new_service])

lemma fetches_append: "fetches (xs @ ys) = fetches xs @ fetches ys"
  by (induction xs) (auto split: effect.splits)

lemma waits_append: "waits (xs @ ys) = waits xs @ waits ys"
  by (induction xs) (auto split: effect.splits)

lemma fetches_rounds:
  "fetches (concat (map (\<lambda>t. [Fetched url, Waited (d * t)]) ts)) = replicate (length ts) url"
  by (induction ts) auto

lemma waits_rounds:
  "waits (concat (map (\<lambda>t. [Fetched url, Waited (d * t)]) ts)) = map (\<lambda>t. d * t) ts"
  by (induction ts) auto

lemma run_retryRequest_loop:
  assumes "a + int j \<le> m"
    and "\<forall>i<j. \<not> truthy (data (makeRequest_settle (net (n + i))))"
    and "truthy (data (makeRequest_settle (net (n + j)))) \<or> a + int j = m"
  shows "run net (retryRequest_loop (\<lambda>_. makeRequest url) m d a) n =
           (Inr (makeRequest_settle (net (n + j))),
            concat (map (\<lambda>t. [Fetched url, Waited (d * t)]) [a .. a + int j - 1]) @ [Fetched url])"
  using assms
proof (induction j arbitrary: a n)
  case 0
  then show ?case
    by (subst retryRequest_loop_makeRequest) auto
next
  case (Suc j)
  have f: "\<not> truthy (data (makeRequest_settle (net n)))" using Suc.prems(2) by force
  have lt: "a < m" using Suc.prems(1) by simp
  have ih: "run net (retryRequest_loop (\<lambda>_. makeRequest url) m d (a + 1)) (Suc n) =
           (Inr (makeRequest_settle (net (Suc n + j))),
            concat (map (\<lambda>t. [Fetched url, Waited (d * t)]) [a + 1 .. a + 1 + int j - 1]) @ [Fetched url])"
    apply (rule Suc.IH)
    using Suc.prems by auto
  have up: "[a .. a + int (Suc j) - 1] = a # [a + 1 .. a + 1 + int j - 1]"
    by (subst upto.simps) (auto)
  show ?case
    apply (subst retryRequest_loop_makeRequest)
    using f lt ih up by (simp)
qed

lemma makeRequest_settle_failed:
  "isl (makeRequest_try out) \<Longrightarrow>
     makeRequest_settle out = makeRequest_catch (projl (makeRequest_try out))"
  by (cases "makeRequest_try out") (simp_all add: makeRequest_settle_def)

lemma makeRequest_catch_fields:
  "data (makeRequest_catch e) = JNull" "error (makeRequest_catch e) \<noteq> None"
  by (simp_all add: makeRequest_catch_def Let_def)

subsection \<open>\<open>run\<close> is one schedule of the event loop\<close>

lemma settled_Awaiting:
  "n < length (operations s) \<Longrightarrow>
   settled s (Awaiting n) =
     (case op_promise (operations s ! n) of
        Return r \<Rightarrow> Some (Inr r) | Throw e \<Rightarrow> Some (Inl e) | _ \<Rightarrow> None)"
  by (simp add: settled_def)

lemma announce_effects:
  "effects (announce p s) = effects s @ take 1 (snd (run net p i))"
  by (cases p) (auto simp: announce_def split: prod.splits)

lemma exec_drive:
  assumes "n < length (operations s)" "op_promise (operations s ! n) = p"
  shows "settled (exec (drive n net p i) s) (Awaiting n) = Some (fst (run net p i)) \<and>
         effects (exec (drive n net p i) s) = effects s @ tl (snd (run net p i)) \<and>
         cache (exec (drive n net p i) s) = cache s \<and>
         pendingRequests (exec (drive n net p i) s) = pendingRequests s"
  using assms
proof (induction p arbitrary: s i)
  case (Return x)
  then show ?case by (simp add: settled_Awaiting)
next
  case (Throw e)
  then show ?case by (simp add: settled_Awaiting)
next
  case (Fetch url k)
  let ?s = "fetch_settles n (net i) s"
  have n: "n < length (operations ?s)" and p: "op_promise (operations ?s ! n) = k (net i)"
    using Fetch.prems by (simp_all add: fetch_settles_def)
  have e: "effects ?s = effects s @ take 1 (snd (run net (k (net i)) (Suc i)))"
    using Fetch.prems by (simp add: fetch_settles_def announce_effects[of _ _ net "Suc i"])
  have c: "cache ?s = cache s" "pendingRequests ?s = pendingRequests s"
    using Fetch.prems by (simp_all add: fetch_settles_def)
  have ih: "settled (exec (drive n net (k (net i)) (Suc i)) ?s) (Awaiting n) =
              Some (fst (run net (k (net i)) (Suc i))) \<and>
         effects (exec (drive n net (k (net i)) (Suc i)) ?s) =
           effects ?s @ tl (snd (run net (k (net i)) (Suc i))) \<and>
         cache (exec (drive n net (k (net i)) (Suc i)) ?s) = cache ?s \<and>
         pendingRequests (exec (drive n net (k (net i)) (Suc i)) ?s) = pendingRequests ?s"
    by (rule Fetch.IH[OF _ n p]) simp
  have t: "take 1 xs @ tl xs = xs" for xs :: "effect list" by (cases xs) simp_all
  show ?case
    using ih e c t[of "snd (run net (k (net i)) (Suc i))"]
    by (cases "run net (k (net i)) (Suc i)") (simp)
next
  case (Timeout ms q)
  let ?s = "timer_fires n s"
  have n: "n < length (operations ?s)" and p: "op_promise (operations ?s ! n) = q"
    using Timeout.prems by (simp_all add: timer_fires_def)
  have e: "effects ?s = effects s @ take 1 (snd (run net q i))"
    using Timeout.prems by (simp add: timer_fires_def announce_effects[of _ _ net i])
  have c: "cache ?s = cache s" "pendingRequests ?s = pendingRequests s"
    using Timeout.prems by (simp_all add: timer_fires_def)
  have ih: "settled (exec (drive n net q i) ?s) (Awaiting n) = Some (fst (run net q i)) \<and>
         effects (exec (drive n net q i) ?s) = effects ?s @ tl (snd (run net q i)) \<and>
         cache (exec (drive n net q i) ?s) = cache ?s \<and>
         pendingRequests (exec (drive n net q i) ?s) = pendingRequests ?s"
    by (rule Timeout.IH[OF n p])
  have t: "take 1 xs @ tl xs = xs" for xs :: "effect list" by (cases xs) simp_all
  show ?case
    using ih e c t[of "snd (run net q i)"]
    by (cases "run net q i") (simp)
qed

subsection \<open>Evaluation and small facts\<close>

lemmas eval_simps =
  ok_response_def error_response_def GetUserById_def outstanding_def
  GetUsers_def makeCachedRequest_def getCachedData_def setCachedData_def new_service_def Let_def
  retryRequest_def retryRequest_loop_makeRequest announce_def fetch_settles_def timer_fires_def
  makeCachedRequest_resume_def clearCache_def clearCacheEntry_def settled_def
  makeRequest_settle_def makeRequest_try_def makeRequest_catch_def number_to_string_def
  digits.simps digit_char_def

lemma upto_1_1: "[1 .. 1 :: int] = [1]"
  by (simp add: upto.simps)

lemma fetch_settles_cache [simp]: "cache (fetch_settles n out s) = cache s"
  by (simp add: fetch_settles_def split: proc.splits)

lemma timer_fires_cache [simp]: "cache (timer_fires n s) = cache s"
  by (simp add: timer_fires_def split: proc.splits)

lemma set_outstanding:
  assumes "tables_ok s"
  shows "set (outstanding s key) = {n. pendingRequests s key = Some n}"
  using assms unfolding tables_ok_def outstanding_def by auto

lemma distinct_outstanding: "distinct (outstanding s key)"
  by (simp add: outstanding_def)

lemma distinct_set_empty_or_single:
  assumes "distinct xs" "set xs \<subseteq> {a}"
  shows "xs = [] \<or> xs = [a]"
proof (cases xs)
  case (Cons x ys)
  then have x: "x = a" using assms(2) by simp
  have "set ys \<subseteq> {a}" "a \<notin> set ys" using assms Cons x by auto
  then have "ys = []" by (cases ys) auto
  then show ?thesis using Cons x by simp
qed simp

lemma outstanding_pending:
  assumes "tables_ok s"
  shows "outstanding s key = (case pendingRequests s key of None \<Rightarrow> [] | Some n \<Rightarrow> [n])"
proof (cases "pendingRequests s key")
  case None
  then have "set (outstanding s key) = {}" using set_outstanding[OF assms, of key] by simp
  then show ?thesis using None by simp
next
  case (Some n)
  then have set: "set (outstanding s key) = {n}" using set_outstanding[OF assms, of key] by auto
  then have "outstanding s key = [] \<or> outstanding s key = [n]"
    using distinct_set_empty_or_single[OF distinct_outstanding, of s key n] by simp
  then show ?thesis using set Some by auto
qed

lemma getCachedData_absent:
  "cache s key = None \<Longrightarrow> getCachedData now key s = (JNull, s)"
  by (simp add: getCachedData_def)

lemma effects_fetch_settles_Return:
  assumes "n < length (operations s)" "op_promise (operations s ! n) = Fetch url k"
    "k out = Return r"
  shows "effects (fetch_settles n out s) = effects s"
    "settled (fetch_settles n out s) (Awaiting n) = Some (Inr r)"
  using assms by (simp_all add: fetch_settles_def announce_def settled_def)

lemma makeRequest_settle_shape:
  "data (makeRequest_settle out) = JNull \<or> error (makeRequest_settle out) = None"
  by (auto simp: makeRequest_settle_def makeRequest_try_def makeRequest_catch_def Let_def
        split: fetch_outcome.splits json_outcome.splits)

lemma hit_is_a_settle:
  "error r = None \<Longrightarrow>
     r = makeRequest_settle (Responded \<lparr>ok = True, status = 200, json_body = Parsed (data r)\<rparr>)"
  by (simp add: makeRequest_settle_def makeRequest_try_def)

lemma returned_settled:
  assumes "h \<in> set (returned (exec es new_service))"
    and "settled (exec es new_service) h = Some x"
  shows "\<exists>out. x = Inr (makeRequest_settle out)"
proof -
  let ?s = "exec es new_service"
  have ok: "promises_ok ?s" using consistent_reachable[of es] by (simp add: consistent_def)
  then have h: "handle_ok ?s h" using assms(1) by (simp add: promises_ok_def)
  show ?thesis
  proof (cases h)
    case (Immediate r)
    then have "error r = None" "x = Inr r" using h assms(2) by (simp_all add: handle_ok_def settled_def)
    then show ?thesis using hit_is_a_settle[of r] by blast
  next
    case (Awaiting n)
    then have n: "n < length (operations ?s)" using h by (simp add: handle_ok_def)
    then have e: "ends (op_promise (operations ?s ! n)) \<subseteq> Inr ` range makeRequest_settle"
      using ok by (simp add: promises_ok_def)
    have "x \<in> ends (op_promise (operations ?s ! n))"
      using assms(2) n Awaiting
      by (cases "op_promise (operations ?s ! n)") (simp_all add: settled_def)
    then show ?thesis using e by auto
  qed
qed

lemma run_in_ends: "fst (run net p n) \<in> ends p"
proof (induction p arbitrary: n)
  case (Fetch url k)
  have "fst (run net (k (net n)) (Suc n)) \<in> ends (k (net n))"
    by (rule Fetch.IH) simp
  then show ?case by (cases "run net (k (net n)) (Suc n)") auto
next
  case (Timeout ms p)
  show ?case using Timeout.IH[of n] by (cases "run net p n") simp
qed simp_all

lemma run_request_resolves:
  "\<exists>out. fst (run net (retryRequest (\<lambda>_. makeRequest url) 3 1000) n) =
           Inr (makeRequest_settle out)"
  using run_in_ends[of net "retryRequest (\<lambda>_. makeRequest url) 3 1000" n] ends_request[of url]
  by auto

lemma upto_1_2: "[1 .. 2 :: int] = [1, 2]"
  by (simp add: upto.simps)

subsection \<open>Every result comes from the last delivery\<close>

lemma is_loop_Fetch:
  assumes "is_loop p"
  obtains url a where "a \<le> 3" "p = Fetch url (\<lambda>out.
          if truthy (data (makeRequest_settle out)) \<or> a = 3 then Return (makeRequest_settle out)
          else Timeout (1000 * a) (retryRequest_loop (\<lambda>_. makeRequest url) 3 1000 (a + 1)))"
proof -
  obtain url a where a: "a \<le> 3" "p = retryRequest_loop (\<lambda>_. makeRequest url) 3 1000 a"
    using assms by (auto simp: is_loop_def)
  have "p = Fetch url (\<lambda>out.
          if truthy (data (makeRequest_settle out)) \<or> a = 3 then Return (makeRequest_settle out)
          else Timeout (1000 * a) (retryRequest_loop (\<lambda>_. makeRequest url) 3 1000 (a + 1)))"
    unfolding a(2) using a(1) by (subst retryRequest_loop_makeRequest) simp
  then show ?thesis using that a(1) by blast
qed

lemma is_loop_start: "is_loop (retryRequest (\<lambda>_. makeRequest url) 3 1000)"
  unfolding is_loop_def retryRequest_def by (intro exI[of _ url] exI[of _ 1]) simp

lemma progress_ok_after_fetch:
  assumes "progress_ok h (Fetch url k)"
  shows "progress_ok (h @ [out]) (k out)"
proof -
  have l: "is_loop (Fetch url k)" using assms by (auto simp: progress_ok_def)
  obtain url' a where a: "a \<le> 3" "Fetch url k = Fetch url' (\<lambda>out.
          if truthy (data (makeRequest_settle out)) \<or> a = 3 then Return (makeRequest_settle out)
          else Timeout (1000 * a) (retryRequest_loop (\<lambda>_. makeRequest url') 3 1000 (a + 1)))"
    using is_loop_Fetch[OF l] by blast
  then have k: "k out = (if truthy (data (makeRequest_settle out)) \<or> a = 3 then Return (makeRequest_settle out)
          else Timeout (1000 * a) (retryRequest_loop (\<lambda>_. makeRequest url') 3 1000 (a + 1)))"
    by (simp add: fun_eq_iff)
  show ?thesis
  proof (cases "truthy (data (makeRequest_settle out)) \<or> a = 3")
    case True
    then show ?thesis using k by (simp add: progress_ok_def)
  next
    case False
    then have "a + 1 \<le> 3" using a(1) by simp
    then have "is_loop (retryRequest_loop (\<lambda>_. makeRequest url') 3 1000 (a + 1))"
      unfolding is_loop_def by blast
    then show ?thesis using k False by (simp add: progress_ok_def)
  qed
qed

lemma progress_ok_after_timer:
  assumes "progress_ok h (Timeout ms q)"
  shows "progress_ok h q"
proof -
  have "\<not> is_loop (Timeout ms q)"
  proof
    assume "is_loop (Timeout ms q)"
    then show False by (rule is_loop_Fetch) simp
  qed
  then have "is_loop q" using assms by (auto simp: progress_ok_def)
  then show ?thesis by (simp add: progress_ok_def)
qed

lemma progress_ok_not_Throw: "\<not> progress_ok h (Throw e)"
proof
  assume "progress_ok h (Throw e)"
  then have "is_loop (Throw e)" by (auto simp: progress_ok_def)
  then show False by (rule is_loop_Fetch) simp
qed

lemma progress_ok_Return:
  assumes "progress_ok h (Return r)"
  shows "h \<noteq> [] \<and> r = makeRequest_settle (last h)"
proof -
  have "\<not> is_loop (Return r)"
  proof
    assume "is_loop (Return r)"
    then show False by (rule is_loop_Fetch) simp
  qed
  then show ?thesis using assms by (auto simp: progress_ok_def)
qed

lemma provenanceI:
  assumes "\<And>n. n < length (operations s) \<Longrightarrow> progress_ok (hs n) (op_promise (operations s ! n))"
  shows "provenance hs s"
  using assms by (simp add: provenance_def)

lemma provenanceD:
  "provenance hs s \<Longrightarrow> n < length (operations s) \<Longrightarrow>
     progress_ok (hs n) (op_promise (operations s ! n))"
  by (simp add: provenance_def)

lemma provenance_same_promises:
  assumes "provenance hs s" "length (operations s') = length (operations s)"
    and "\<And>n. n < length (operations s) \<Longrightarrow>
           op_promise (operations s' ! n) = op_promise (operations s ! n)"
  shows "provenance hs s'"
  using assms by (simp add: provenance_def)

lemma delivery_not_fetch [simp]:
  "delivery (now, Call url key) s n = []"
  "delivery (now, TimerFires m) s n = []"
  "delivery (now, Resumes m) s n = []"
  "delivery (now, ClearCache) s n = []"
  "delivery (now, ClearCacheEntry key) s n = []"
  by (simp_all add: delivery_def)

lemma provenance_call:
  assumes "provenance hs s"
  shows "provenance hs (step (now, Call url key) s)"
proof -
  obtain d s1 where g: "getCachedData now key s = (d, s1)" by force
  have f1: "operations s1 = operations s" using getCachedData_fields(2)[of now key s] g by simp
  have p1: "provenance hs s1"
    by (rule provenance_same_promises[OF assms]) (simp_all add: f1)
  show ?thesis
  proof (cases "truthy d")
    case True
    show ?thesis
      by (rule provenance_same_promises[OF p1]) (simp_all add: makeCachedRequest_hit[OF g True])
  next
    case False
    show ?thesis
    proof (cases "pendingRequests s1 key")
      case (Some m)
      show ?thesis
        by (rule provenance_same_promises[OF p1])
           (simp_all add: makeCachedRequest_join[OF g False Some])
    next
      case None
      show ?thesis
      proof (rule provenanceI)
        fix n assume "n < length (operations (step (now, Call url key) s))"
        then have "n < length (operations s1) \<or> n = length (operations s1)"
          by (auto simp: makeCachedRequest_start[OF g False None])
        then show "progress_ok (hs n) (op_promise (operations (step (now, Call url key) s) ! n))"
          using provenanceD[OF p1, of n] is_loop_start[of url]
          by (auto simp: makeCachedRequest_start[OF g False None] nth_append progress_ok_def)
      qed
    qed
  qed
qed

lemma provenance_fetch_settles:
  assumes "provenance hs s"
  shows "provenance (\<lambda>n. hs n @ delivery (now, FetchSettles m out) s n)
           (step (now, FetchSettles m out) s)"
proof (cases "m < length (operations s)")
  case False
  then have "fetch_settles m out s = s" "\<And>n. delivery (now, FetchSettles m out) s n = []"
    by (auto simp: fetch_settles_def delivery_def)
  then show ?thesis using assms by simp
next
  case True
  show ?thesis
  proof (cases "op_promise (operations s ! m)")
    case (Fetch url k)
    have d: "delivery (now, FetchSettles m out) s n = (if n = m then [out] else [])" for n
      using True Fetch by (auto simp: delivery_def awaits_fetch_def)
    have ops: "operations (fetch_settles m out s) =
                 (operations s)[m := (operations s ! m)\<lparr>op_promise := k out\<rparr>]"
      using True Fetch by (simp add: fetch_settles_def)
    show ?thesis
    proof (rule provenanceI)
      fix n assume "n < length (operations (step (now, FetchSettles m out) s))"
      then have n: "n < length (operations s)" by (simp add: ops)
      show "progress_ok (hs n @ delivery (now, FetchSettles m out) s n)
              (op_promise (operations (step (now, FetchSettles m out) s) ! n))"
      proof (cases "n = m")
        case True
        have "progress_ok (hs m) (Fetch url k)" using provenanceD[OF assms n] True Fetch by simp
        then have "progress_ok (hs m @ [out]) (k out)" by (rule progress_ok_after_fetch)
        then show ?thesis using True n by (simp add: d ops)
      next
        case False
        then show ?thesis using provenanceD[OF assms n] n by (simp add: d ops)
      qed
    qed
  next
    case (Return r)
    then have "fetch_settles m out s = s" "\<And>n. delivery (now, FetchSettles m out) s n = []"
      using True by (auto simp: fetch_settles_def delivery_def awaits_fetch_def)
    then show ?thesis using assms by simp
  next
    case (Throw e)
    then have "fetch_settles m out s = s" "\<And>n. delivery (now, FetchSettles m out) s n = []"
      using True by (auto simp: fetch_settles_def delivery_def awaits_fetch_def)
    then show ?thesis using assms by simp
  next
    case (Timeout ms q)
    then have "fetch_settles m out s = s" "\<And>n. delivery (now, FetchSettles m out) s n = []"
      using True by (auto simp: fetch_settles_def delivery_def awaits_fetch_def)
    then show ?thesis using assms by simp
  qed
qed

lemma provenance_timer_fires:
  assumes "provenance hs s"
  shows "provenance hs (step (now, TimerFires m) s)"
proof (cases "m < length (operations s)")
  case False
  then show ?thesis using assms by (simp add: timer_fires_def)
next
  case True
  show ?thesis
  proof (cases "op_promise (operations s ! m)")
    case (Timeout ms q)
    have ops: "operations (timer_fires m s) =
                 (operations s)[m := (operations s ! m)\<lparr>op_promise := q\<rparr>]"
      using True Timeout by (simp add: timer_fires_def)
    show ?thesis
    proof (rule provenanceI)
      fix n assume "n < length (operations (step (now, TimerFires m) s))"
      then have n: "n < length (operations s)" by (simp add: ops)
      show "progress_ok (hs n) (op_promise (operations (step (now, TimerFires m) s) ! n))"
      proof (cases "n = m")
        case True
        have "progress_ok (hs m) (Timeout ms q)"
          using provenanceD[OF assms n] True Timeout by simp
        then have "progress_ok (hs m) q" by (rule progress_ok_after_timer)
        then show ?thesis using True n by (simp add: ops)
      next
        case False
        then show ?thesis using provenanceD[OF assms n] n by (simp add: ops)
      qed
    qed
  qed (use assms True in \<open>simp_all add: timer_fires_def\<close>)
qed

lemma provenance_resume:
  assumes "provenance hs s"
  shows "provenance hs (step (now, Resumes m) s)"
proof (rule provenance_same_promises[OF assms])
  show "length (operations (step (now, Resumes m) s)) = length (operations s)"
    by (auto simp: makeCachedRequest_resume_def Let_def setCachedData_def split: proc.splits)
next
  fix n assume "n < length (operations s)"
  then show "op_promise (operations (step (now, Resumes m) s) ! n) =
               op_promise (operations s ! n)"
    by (cases "n = m")
       (auto simp: makeCachedRequest_resume_def Let_def setCachedData_def split: proc.splits)
qed

lemma provenance_step:
  assumes "provenance hs s"
  shows "provenance (\<lambda>n. hs n @ delivery e s n) (step e s)"
proof (cases e)
  case (Pair now ev)
  show ?thesis
  proof (cases ev)
    case (Call url key)
    then show ?thesis using provenance_call[OF assms] Pair by simp
  next
    case (FetchSettles m out)
    then show ?thesis using provenance_fetch_settles[OF assms] Pair by simp
  next
    case (TimerFires m)
    then show ?thesis using provenance_timer_fires[OF assms] Pair by simp
  next
    case (Resumes m)
    then show ?thesis using provenance_resume[OF assms] Pair by simp
  next
    case ClearCache
    have "provenance hs (clearCache s)"
      by (rule provenance_same_promises[OF assms]) (simp_all add: clearCache_def)
    then show ?thesis by (simp add: Pair ClearCache)
  next
    case (ClearCacheEntry k)
    have "provenance hs (clearCacheEntry k s)"
      by (rule provenance_same_promises[OF assms]) (simp_all add: clearCacheEntry_def)
    then show ?thesis by (simp add: Pair ClearCacheEntry)
  qed
qed

lemma provenance_exec:
  "provenance hs s \<Longrightarrow> provenance (\<lambda>n. hs n @ delivered es s n) (exec es s)"
proof (induction es arbitrary: hs s)
  case Nil
  then show ?case by simp
next
  case (Cons e es)
  have "provenance (\<lambda>n. (hs n @ delivery e s n) @ delivered es (step e s) n) (exec es (step e s))"
    by (rule Cons.IH[OF provenance_step[OF Cons.prems]])
  then show ?case by simp
qed

lemma provenance_reachable: "provenance (delivered es new_service) (exec es new_service)"
proof -
  have "provenance (\<lambda>n. []) new_service" by (simp add: provenance_def new_service_def)
  then show ?thesis using provenance_exec[of "\<lambda>n. []" new_service es] by simp
qed

lemma settled_last_delivered:
  assumes "settled (exec es new_service) (Awaiting n) = Some x"
  shows "delivered es new_service n \<noteq> [] \<and>
         x = Inr (makeRequest_settle (last (delivered es new_service n)))"
proof -
  let ?s = "exec es new_service"
  have n: "n < length (operations ?s)"
    using assms by (auto simp: settled_def split: if_splits)
  have p: "progress_ok (delivered es new_service n) (op_promise (operations ?s ! n))"
    by (rule provenanceD[OF provenance_reachable n])
  show ?thesis
  proof (cases "op_promise (operations ?s ! n)")
    case (Return r)
    then have "x = Inr r" using assms n by (simp add: settled_def)
    then show ?thesis using progress_ok_Return p Return by auto
  next
    case (Throw e)
    then show ?thesis using p progress_ok_not_Throw by auto
  qed (use assms n in \<open>simp_all add: settled_def\<close>)
qed

lemma run_request:
  "run net (retryRequest (\<lambda>_. makeRequest url) 3 1000) n =
     (if truthy (data (makeRequest_settle (net n)))
      then (Inr (makeRequest_settle (net n)), [Fetched url])
      else if truthy (data (makeRequest_settle (net (Suc n))))
      then (Inr (makeRequest_settle (net (Suc n))), [Fetched url, Waited 1000, Fetched url])
      else (Inr (makeRequest_settle (net (Suc (Suc n)))),
            [Fetched url, Waited 1000, Fetched url, Waited 2000, Fetched url]))"
  by (simp add: retryRequest_def retryRequest_loop_makeRequest)

lemma makeRequest_settle_thrown:
  "makeRequest_try out = Inl e \<Longrightarrow>
     makeRequest_settle out =
       \<lparr>data = JNull,
        error = Some (case e of Error message \<Rightarrow> message
                              | NotAnError \<Rightarrow> ERROR_MESSAGES_UNKNOWN_ERROR)\<rparr>"
  by (simp add: makeRequest_settle_def makeRequest_catch_def)

lemma makeRequest_settle_null_null:
  "data (makeRequest_settle out) = JNull \<and> error (makeRequest_settle out) = None \<longleftrightarrow>
     (case out of
        Rejected e \<Rightarrow> False
      | Responded response \<Rightarrow> ok response \<and> json_body response = Parsed JNull)"
  by (auto simp: makeRequest_settle_def makeRequest_try_def makeRequest_catch_def Let_def
        split: fetch_outcome.splits json_outcome.splits)

lemmas delivered_simps = delivery_def awaits_fetch_def

section \<open>Deduplication of requests\<close>

text \<open>
  Claim C1. In every state that the service can reach, and for every key, at most one
  operation is outstanding, and it is the one that \<^verbatim>\<open>pendingRequests\<close> holds for the
  key. A call for a key that is neither cached nor pending starts an operation, which
  calls \<^verbatim>\<open>fetch\<close> once, and registers it within the same call; a second call for the key,
  at any time \<open>now'\<close> while the entry is there, gets the same handle and changes nothing,
  so that \<^verbatim>\<open>fetch\<close> has been called once when the first attempt gives truthy data, and
  both callers see that one result. In general, a call for a key with a pending entry gets
  the pending operation. When the operation has settled, with a result of either kind or
  with a rejection, the resuming call removes the pending entry.
\<close>

theorem one_operation_per_key:
  assumes "s = exec es new_service"
  shows "length (outstanding s key) \<le> 1 \<and>
         outstanding s key = (case pendingRequests s key of None \<Rightarrow> [] | Some n \<Rightarrow> [n]) \<and>
         (\<not> truthy (fst (getCachedData now key s)) \<and> pendingRequests s key = None \<longrightarrow>
            (case makeCachedRequest now url key s of
               (h, s') \<Rightarrow>
                 h = Awaiting (length (operations s)) \<and>
                 pendingRequests s' key = Some (length (operations s)) \<and>
                 effects s' = effects s @ [Fetched url] \<and>
                 makeCachedRequest now' url' key s' = (h, s') \<and>
                 (truthy (data (makeRequest_settle out)) \<longrightarrow>
                    effects (fetch_settles (length (operations s)) out s') =
                      effects s @ [Fetched url] \<and>
                    settled (fetch_settles (length (operations s)) out s') h =
                      Some (Inr (makeRequest_settle out))))) \<and>
         (\<forall>n. pendingRequests s key = Some n \<longrightarrow>
            makeCachedRequest now url key s = (Awaiting n, s)) \<and>
         (\<forall>n. n < length (operations s) \<and> \<not> op_finished (operations s ! n) \<and>
               settled s (Awaiting n) \<noteq> None \<longrightarrow>
            pendingRequests (makeCachedRequest_resume now n s) (op_key (operations s ! n)) = None \<and>
            outstanding (makeCachedRequest_resume now n s) (op_key (operations s ! n)) = [])"
proof -
  have ok: "tables_ok s" using consistent_reachable[of es] assms by (simp add: consistent_def)
  have out: "outstanding s key = (case pendingRequests s key of None \<Rightarrow> [] | Some n \<Rightarrow> [n])"
    by (rule outstanding_pending[OF ok])
  then have le: "length (outstanding s key) \<le> 1" by (simp split: option.splits)
  have start: "case makeCachedRequest now url key s of
               (h, s') \<Rightarrow>
                 h = Awaiting (length (operations s)) \<and>
                 pendingRequests s' key = Some (length (operations s)) \<and>
                 effects s' = effects s @ [Fetched url] \<and>
                 makeCachedRequest now' url' key s' = (h, s') \<and>
                 (truthy (data (makeRequest_settle out)) \<longrightarrow>
                    effects (fetch_settles (length (operations s)) out s') =
                      effects s @ [Fetched url] \<and>
                    settled (fetch_settles (length (operations s)) out s') h =
                      Some (Inr (makeRequest_settle out)))"
    if miss: "\<not> truthy (fst (getCachedData now key s))" and none: "pendingRequests s key = None"
  proof -
    obtain d s1 where g: "getCachedData now key s = (d, s1)" by force
    have d: "\<not> truthy d" using miss g by simp
    have c1: "cache s1 key = None" using getCachedData_miss[OF ok miss] g by simp
    have f1: "operations s1 = operations s" "effects s1 = effects s"
      "pendingRequests s1 = pendingRequests s"
      using getCachedData_fields[of now key s] g by simp_all
    have none1: "pendingRequests s1 key = None" using none f1 by simp
    define s' where "s' = s1\<lparr>operations := operations s1 @
                  [\<lparr>op_key = key, op_promise = retryRequest (\<lambda>_. makeRequest url) 3 1000,
                    op_finished = False\<rparr>],
               effects := effects s1 @ [Fetched url],
               pendingRequests := (pendingRequests s1)(key \<mapsto> length (operations s1))\<rparr>"
    have m: "makeCachedRequest now url key s = (Awaiting (length (operations s)), s')"
      using makeCachedRequest_start[OF g d none1, of url] f1 by (simp add: s'_def)
    have c': "cache s' key = None" using c1 by (simp add: s'_def)
    have p': "pendingRequests s' key = Some (length (operations s))"
      by (simp add: s'_def f1)
    have again: "makeCachedRequest now' url' key s' = (Awaiting (length (operations s)), s')"
      by (rule makeCachedRequest_join[OF getCachedData_absent[OF c']]) (simp_all add: p')
    have n': "length (operations s) < length (operations s')" by (simp add: s'_def f1)
    have pr: "op_promise (operations s' ! length (operations s)) =
                Fetch url (\<lambda>out.
                  if truthy (data (makeRequest_settle out)) then Return (makeRequest_settle out)
                  else Timeout 1000 (retryRequest_loop (\<lambda>_. makeRequest url) 3 1000 2))"
      by (simp add: s'_def f1 retryRequest_Fetch)
    have eff: "effects s' = effects s @ [Fetched url]" by (simp add: s'_def f1)
    show ?thesis
      unfolding m prod.case
      using p' eff again effects_fetch_settles_Return[OF n' pr, of out "makeRequest_settle out"]
      by simp
  qed
  have join: "makeCachedRequest now url key s = (Awaiting n, s)"
    if p: "pendingRequests s key = Some n" for n
  proof -
    have "cache s key = None" using ok p by (simp add: tables_ok_def)
    then show ?thesis
      by (intro makeCachedRequest_join[OF getCachedData_absent]) (simp_all add: p)
  qed
  have finish: "pendingRequests (makeCachedRequest_resume now n s) (op_key (operations s ! n)) = None \<and>
            outstanding (makeCachedRequest_resume now n s) (op_key (operations s ! n)) = []"
    if n: "n < length (operations s)" "\<not> op_finished (operations s ! n)"
      "settled s (Awaiting n) \<noteq> None" for n
  proof -
    have "pendingRequests (makeCachedRequest_resume now n s) (op_key (operations s ! n)) = None"
      using n by (cases "op_promise (operations s ! n)")
        (simp_all add: makeCachedRequest_resume_def Let_def setCachedData_def settled_def)
    then show ?thesis
      using outstanding_pending[OF tables_ok_resume[OF ok], of now n "op_key (operations s ! n)"]
      by simp
  qed
  show ?thesis
  proof (intro conjI)
    show "length (outstanding s key) \<le> 1" by (rule le)
    show "outstanding s key = (case pendingRequests s key of None \<Rightarrow> [] | Some n \<Rightarrow> [n])"
      by (rule out)
  qed (use start join finish in simp_all)
qed

text \<open>Two calls of \<open>getUsers\<close> in a row, and a third one at time 2.\<close>

theorem one_operation_per_key_witness:
  "outstanding (exec [(0, GetUsers), (1, GetUsers)] new_service) ''users'' = [0] \<and>
   pendingRequests (exec [(0, GetUsers), (1, GetUsers)] new_service) ''users'' = Some 0 \<and>
   makeCachedRequest 2 API_ENDPOINTS_USERS ''users''
       (exec [(0, GetUsers), (1, GetUsers)] new_service) =
     (Awaiting 0, exec [(0, GetUsers), (1, GetUsers)] new_service) \<and>
   effects (exec [(0, GetUsers), (1, GetUsers)] new_service) = [Fetched API_ENDPOINTS_USERS]"
  using one_operation_per_key [where s = "exec [(0, GetUsers), (1, GetUsers)] new_service"
      and es = "[(0, GetUsers), (1, GetUsers)]" and key = "''users''" and now = 2
      and url = API_ENDPOINTS_USERS]
  by (simp add: eval_simps)

section \<open>The retry loop\<close>

text \<open>
  Claim C2. If every attempt fails (the \<^verbatim>\<open>fetch\<close> rejects, the status is not 2xx, or
  the body does not parse), \<open>retryRequest\<close> calls the raw request exactly \<open>maxRetries\<close>
  times, waits \<open>delay * attempt\<close> milliseconds after each attempt but the last (1000 and
  then 2000 with the defaults), and resolves with the result of the last attempt, which
  carries that attempt's error message. The loop makes an attempt only when
  \<open>maxRetries\<close> is at least 1.
\<close>

theorem retryRequest_exhausted:
  assumes "1 \<le> maxRetries" and "\<forall>i<nat maxRetries. isl (makeRequest_try (net (n + i)))"
  shows "(case run net (retryRequest (\<lambda>_. makeRequest url) maxRetries delay) n of
           (result, effs) \<Rightarrow>
             result = Inr (makeRequest_settle (net (n + (nat maxRetries - 1)))) \<and>
             result = Inr (makeRequest_catch
                             (projl (makeRequest_try (net (n + (nat maxRetries - 1)))))) \<and>
             effs = concat (map (\<lambda>attempt. [Fetched url, Waited (delay * attempt)])
                              [1 .. maxRetries - 1]) @ [Fetched url] \<and>
             fetches effs = replicate (nat maxRetries) url \<and>
             waits effs = map (\<lambda>attempt. delay * attempt) [1 .. maxRetries - 1])"
proof -
  let ?j = "nat maxRetries - 1"
  have j: "1 + int ?j = maxRetries" using assms(1) by simp
  have falsy: "\<forall>i<?j. \<not> truthy (data (makeRequest_settle (net (n + i))))"
    using assms(2) by (simp add: makeRequest_settle_failed makeRequest_catch_fields)
  have last: "makeRequest_settle (net (n + ?j)) =
                makeRequest_catch (projl (makeRequest_try (net (n + ?j))))"
  proof -
    have "?j < nat maxRetries" using assms(1) by simp
    then have "isl (makeRequest_try (net (n + ?j)))" using assms(2) by blast
    then show ?thesis by (rule makeRequest_settle_failed)
  qed
  have r: "run net (retryRequest (\<lambda>_. makeRequest url) maxRetries delay) n =
           (Inr (makeRequest_settle (net (n + ?j))),
            concat (map (\<lambda>t. [Fetched url, Waited (delay * t)]) [1 .. 1 + int ?j - 1])
              @ [Fetched url])"
    unfolding retryRequest_def
    by (rule run_retryRequest_loop) (use j falsy in simp_all)
  have e: "1 + int ?j - 1 = maxRetries - 1" using j by simp
  have len: "Suc (nat (maxRetries - 1)) = nat maxRetries" using assms(1) by simp
  have rep: "replicate (nat maxRetries) url = url # replicate (nat (maxRetries - 1)) url"
    unfolding len[symmetric] by simp
  show ?thesis
    unfolding r e using last
    by (simp add: fetches_append waits_append fetches_rounds waits_rounds rep
          replicate_append_same)
qed

text \<open>Three attempts that all get status 500.\<close>

theorem retryRequest_exhausted_witness:
  "run (always (Responded \<lparr>ok = False, status = 500, json_body = Parsed (JObj [])\<rparr>))
     (retryRequest (\<lambda>_. makeRequest API_ENDPOINTS_USERS) 3 1000) 0 =
   (Inr \<lparr>data = JNull, error = Some ''HTTP error! status: 500''\<rparr>,
    [Fetched API_ENDPOINTS_USERS, Waited 1000, Fetched API_ENDPOINTS_USERS, Waited 2000,
     Fetched API_ENDPOINTS_USERS])"
  using retryRequest_exhausted [of 3
      "always (Responded \<lparr>ok = False, status = 500, json_body = Parsed (JObj [])\<rparr>)" 0
      API_ENDPOINTS_USERS 1000]
  by (simp add: always_def makeRequest_try_def makeRequest_catch_def number_to_string_def
        digits.simps digit_char_def upto_1_2 split: prod.splits)

section \<open>Freshness of cache entries\<close>

text \<open>
  Claim C3. In every reachable state with a cache entry \<open>e\<close> for a key: a call at a time
  \<open>now\<close> with \<open>now - timestamp e \<le> CACHE_DURATION\<close> (300000 ms) returns the entry's data
  with a null error and leaves the state as it is, so no network call is made; a call with
  \<open>now - timestamp e > CACHE_DURATION\<close> deletes the entry in its lookup and starts a new
  operation, which calls \<^verbatim>\<open>fetch\<close>. Nothing sweeps entries: a lookup of another key
  leaves the entry in place, however old it is.
\<close>

theorem cached_until_expired:
  assumes "cache (exec es new_service) key = Some e"
  shows "(now - timestamp e \<le> CACHE_DURATION \<longrightarrow>
            makeCachedRequest now url key (exec es new_service) =
              (Immediate \<lparr>data = cached_data e, error = None\<rparr>, exec es new_service)) \<and>
         (now - timestamp e > CACHE_DURATION \<longrightarrow>
            getCachedData now key (exec es new_service) =
              (JNull, (exec es new_service)\<lparr>cache := (cache (exec es new_service))(key := None)\<rparr>) \<and>
            (case makeCachedRequest now url key (exec es new_service) of
               (h, s') \<Rightarrow> h = Awaiting (length (operations (exec es new_service))) \<and>
                          cache s' key = None \<and>
                          effects s' = effects (exec es new_service) @ [Fetched url])) \<and>
         (\<forall>k. k \<noteq> key \<longrightarrow> cache (snd (getCachedData now k (exec es new_service))) key = Some e)"
proof -
  let ?s = "exec es new_service"
  have ok: "tables_ok ?s" using consistent_reachable[of es] by (simp add: consistent_def)
  have t: "truthy (cached_data e)" using ok assms by (simp add: tables_ok_def)
  have p: "pendingRequests ?s key = None"
    using ok assms unfolding tables_ok_def by (metis option.distinct(1))
  show ?thesis
    using assms t p
    by (auto simp: makeCachedRequest_def getCachedData_def Let_def retryRequest_Fetch
          announce_def split: option.splits)
qed

text \<open>
  The entry stored at time 6 is served at time 300006 and refetched at time 300007.
\<close>

theorem cached_until_expired_witness:
  "makeCachedRequest 300006 API_ENDPOINTS_USERS ''users'' (exec users_loaded new_service) =
     (Immediate \<lparr>data = sample_users, error = None\<rparr>, exec users_loaded new_service) \<and>
   fst (makeCachedRequest 300007 API_ENDPOINTS_USERS ''users'' (exec users_loaded new_service)) =
     Awaiting 1 \<and>
   effects (snd (makeCachedRequest 300007 API_ENDPOINTS_USERS ''users''
                   (exec users_loaded new_service))) =
     [Fetched API_ENDPOINTS_USERS, Fetched API_ENDPOINTS_USERS]"
  using cached_until_expired [where es = users_loaded and key = "''users''"
      and e = "\<lparr>cached_data = sample_users, timestamp = 6\<rparr>" and now = 300006
      and url = API_ENDPOINTS_USERS]
    cached_until_expired [where es = users_loaded and key = "''users''"
      and e = "\<lparr>cached_data = sample_users, timestamp = 6\<rparr>" and now = 300007
      and url = API_ENDPOINTS_USERS]
  by (simp add: eval_simps users_loaded_def sample_users_def CACHE_DURATION_def)

section \<open>Leaving the retry loop early\<close>

text \<open>
  Claim C4 as stated speaks of non-null data. The loop tests \<^verbatim>\<open>if (result.data)\<close>: a
  2xx response with the body \<^verbatim>\<open>0\<close> gives data that is not null, and the operation sets
  the timer for the second attempt instead of returning.
\<close>

theorem falsy_data_is_retried:
  "data (makeRequest_settle (Responded \<lparr>ok = True, status = 200, json_body = Parsed (JNum 0)\<rparr>))
     \<noteq> JNull \<and>
   effects (exec [(0, GetUsers),
                  (1, FetchSettles 0
                        (Responded \<lparr>ok = True, status = 200, json_body = Parsed (JNum 0)\<rparr>))]
              new_service) =
     [Fetched API_ENDPOINTS_USERS, Waited 1000] \<and>
   settled (exec [(0, GetUsers),
                  (1, FetchSettles 0
                        (Responded \<lparr>ok = True, status = 200, json_body = Parsed (JNum 0)\<rparr>))]
              new_service) (Awaiting 0) = None"
  by (simp add: eval_simps)

text \<open>
  Claim C4, amended. A result with truthy data (not null, and not \<^verbatim>\<open>false\<close>, \<^verbatim>\<open>0\<close> or
  the empty string) returned on any attempt ends the loop at once: if attempt \<open>j + 1\<close> is
  the first with truthy data, \<open>retryRequest\<close> resolves with its result, and the last thing
  it did was that attempt's \<^verbatim>\<open>fetch\<close>; there is no further attempt and no further wait.
\<close>

theorem retryRequest_short_circuit:
  assumes "int j < maxRetries"
    and "\<forall>i<j. \<not> truthy (data (makeRequest_settle (net (n + i))))"
    and "truthy (data (makeRequest_settle (net (n + j))))"
  shows "run net (retryRequest (\<lambda>_. makeRequest url) maxRetries delay) n =
           (Inr (makeRequest_settle (net (n + j))),
            concat (map (\<lambda>attempt. [Fetched url, Waited (delay * attempt)]) [1 .. int j])
              @ [Fetched url])"
proof -
  have "run net (retryRequest_loop (\<lambda>_. makeRequest url) maxRetries delay 1) n =
           (Inr (makeRequest_settle (net (n + j))),
            concat (map (\<lambda>t. [Fetched url, Waited (delay * t)]) [1 .. 1 + int j - 1])
              @ [Fetched url])"
    by (rule run_retryRequest_loop) (use assms in simp_all)
  then show ?thesis by (simp add: retryRequest_def)
qed

text \<open>A rejected first attempt, then a response with an empty array.\<close>

theorem retryRequest_short_circuit_witness:
  "run ((always (Rejected (Error ''Network down'')))
          (1 := Responded \<lparr>ok = True, status = 200, json_body = Parsed (JArr [])\<rparr>))
     (retryRequest (\<lambda>_. makeRequest API_ENDPOINTS_USERS) 3 1000) 0 =
   (Inr \<lparr>data = JArr [], error = None\<rparr>,
    [Fetched API_ENDPOINTS_USERS, Waited 1000, Fetched API_ENDPOINTS_USERS])"
  using retryRequest_short_circuit [of 1 3
      "(always (Rejected (Error ''Network down'')))
          (1 := Responded \<lparr>ok = True, status = 200, json_body = Parsed (JArr [])\<rparr>)" 0
      API_ENDPOINTS_USERS 1000]
  by (simp add: always_def makeRequest_settle_def makeRequest_try_def makeRequest_catch_def
        upto_1_1)

section \<open>The shape of results\<close>

text \<open>
  Claim C5 as stated excludes a result with both fields null. When all three attempts get a
  2xx response whose body is the JSON value \<^verbatim>\<open>null\<close>, the caller of \<open>getUsers\<close> gets
  exactly that.
\<close>

theorem both_fields_null_counterexample:
  "returned (exec [(0, GetUsers),
      (1, FetchSettles 0 (Responded \<lparr>ok = True, status = 200, json_body = Parsed JNull\<rparr>)),
      (1001, TimerFires 0),
      (1002, FetchSettles 0 (Responded \<lparr>ok = True, status = 200, json_body = Parsed JNull\<rparr>)),
      (3002, TimerFires 0),
      (3003, FetchSettles 0 (Responded \<lparr>ok = True, status = 200, json_body = Parsed JNull\<rparr>)),
      (3003, Resumes 0)] new_service) = [Awaiting 0] \<and>
   settled (exec [(0, GetUsers),
      (1, FetchSettles 0 (Responded \<lparr>ok = True, status = 200, json_body = Parsed JNull\<rparr>)),
      (1001, TimerFires 0),
      (1002, FetchSettles 0 (Responded \<lparr>ok = True, status = 200, json_body = Parsed JNull\<rparr>)),
      (3002, TimerFires 0),
      (3003, FetchSettles 0 (Responded \<lparr>ok = True, status = 200, json_body = Parsed JNull\<rparr>)),
      (3003, Resumes 0)] new_service) (Awaiting 0) =
     Some (Inr \<lparr>data = JNull, error = None\<rparr>)"
  by (simp add: eval_simps)

text \<open>
  Claim C5, amended. No caller of \<open>getUsers\<close> or \<open>getUserById\<close> ever gets a rejection.
  The result of a cache hit has non-null data and a null error. Any other result is what
  \<open>makeRequest\<close> made of the last outcome that \<^verbatim>\<open>fetch\<close> delivered to the operation the
  caller waits for. The two fields are never both non-null, and they are both null exactly
  when that last outcome was an ok response whose body parsed to \<^verbatim>\<open>null\<close>; in every
  other case exactly one of them is non-null.
\<close>

theorem result_shape:
  assumes "h \<in> set (returned (exec es new_service))"
    and "settled (exec es new_service) h = Some x"
  shows "case x of
           Inl t \<Rightarrow> False
         | Inr r \<Rightarrow>
             (case h of
                Immediate r' \<Rightarrow> r = r' \<and> data r \<noteq> JNull \<and> error r = None
              | Awaiting n \<Rightarrow>
                  delivered es new_service n \<noteq> [] \<and>
                  r = makeRequest_settle (last (delivered es new_service n))) \<and>
             (data r = JNull \<or> error r = None) \<and>
             (data r = JNull \<and> error r = None \<longleftrightarrow>
                (case h of
                   Immediate r' \<Rightarrow> False
                 | Awaiting n \<Rightarrow>
                     (case last (delivered es new_service n) of
                        Rejected e \<Rightarrow> False
                      | Responded response \<Rightarrow>
                          ok response \<and> json_body response = Parsed JNull)))"
proof (cases h)
  case (Immediate r')
  have "handle_ok (exec es new_service) h"
    using consistent_reachable[of es] assms(1) by (simp add: consistent_def promises_ok_def)
  then have "truthy (data r')" "error r' = None" using Immediate by (simp_all add: handle_ok_def)
  moreover have "x = Inr r'" using assms(2) Immediate by (simp add: settled_def)
  ultimately show ?thesis using Immediate by auto
next
  case (Awaiting n)
  have l: "delivered es new_service n \<noteq> []"
    "x = Inr (makeRequest_settle (last (delivered es new_service n)))"
    using settled_last_delivered[of es n x] assms(2) Awaiting by simp_all
  show ?thesis
    using l Awaiting makeRequest_settle_shape[of "last (delivered es new_service n)"]
      makeRequest_settle_null_null[of "last (delivered es new_service n)"]
    by simp
qed

text \<open>The result of a call whose three attempts got status 500.\<close>

theorem result_shape_witness:
  "Awaiting 0 \<in> set (returned (exec users_failing new_service)) \<and>
   last (delivered users_failing new_service 0) = error_response 500 \<and>
   settled (exec users_failing new_service) (Awaiting 0) =
     Some (Inr \<lparr>data = JNull, error = Some ''HTTP error! status: 500''\<rparr>)"
proof -
  have a: "Awaiting 0 \<in> set (returned (exec users_failing new_service))"
    by (simp add: eval_simps users_failing_def)
  have b: "settled (exec users_failing new_service) (Awaiting 0) =
             Some (Inr \<lparr>data = JNull, error = Some ''HTTP error! status: 500''\<rparr>)"
    by (simp add: eval_simps users_failing_def)
  have c: "last (delivered users_failing new_service 0) = error_response 500"
    by (simp add: eval_simps delivered_simps users_failing_def)
  show ?thesis using result_shape [OF a b] a b c by blast
qed

section \<open>HTTP errors\<close>

text \<open>
  Claim C6. A response that is not ok (the platform sets \<^verbatim>\<open>ok\<close> for a status from 200
  to 299) gives a result with null data and the error \<^verbatim>\<open>HTTP error! status: \<close> followed
  by the status. Such a result does not touch the cache: neither the settling of the
  \<^verbatim>\<open>fetch\<close> nor the resuming call that holds this result creates or replaces an entry.
\<close>

theorem http_error_not_cached:
  assumes "\<not> ok response"
  shows "makeRequest_settle (Responded response) =
           \<lparr>data = JNull,
            error = Some (''HTTP error! status: '' @ number_to_string (status response))\<rparr> \<and>
         cache (fetch_settles n (Responded response) s) = cache s \<and>
         (op_promise (operations s ! n) = Return (makeRequest_settle (Responded response)) \<longrightarrow>
            cache (makeCachedRequest_resume now n s) = cache s)"
  using assms
  by (simp add: makeRequest_settle_def makeRequest_try_def makeRequest_catch_def
        makeCachedRequest_resume_def Let_def)

text \<open>Status 500 on all attempts of \<open>getUsers\<close>, then the call resumes.\<close>

theorem http_error_not_cached_witness:
  "makeRequest_settle (error_response 500) =
     \<lparr>data = JNull, error = Some ''HTTP error! status: 500''\<rparr> \<and>
   settled (exec users_failing new_service) (Awaiting 0) =
     Some (Inr (makeRequest_settle (error_response 500))) \<and>
   cache (makeCachedRequest_resume 3016 0 (exec users_failing new_service)) =
     cache (exec users_failing new_service) \<and>
   cache (makeCachedRequest_resume 3016 0 (exec users_failing new_service)) ''users'' = None"
  using http_error_not_cached [where response = "\<lparr>ok = False, status = 500, json_body = Parsed (JObj [])\<rparr>"
      and n = 0 and s = "exec users_failing new_service" and now = 3016]
  by (simp add: eval_simps users_failing_def)

section \<open>Clearing the cache\<close>




section \<open>Failures stay inside results\<close>

text \<open>
  Claim C8. Each of the three failures (a rejected \<^verbatim>\<open>fetch\<close>, a status that is not 2xx,
  a body that does not parse) is a throw inside the \<^verbatim>\<open>try\<close> block of \<open>makeRequest\<close>, and
  every throw there is turned into a result with null data and the message in \<open>error\<close>.
  So \<open>makeRequest\<close> always resolves. The retrying request of the public operations, on
  every network, resolves with the result of the last attempt it made, which carries the
  message when that attempt failed. In every reachable state, no handle given to a caller
  settles with a rejection, and the result behind a handle is what \<open>makeRequest\<close> made of
  the last outcome delivered to its operation: null data and the failure's message in
  \<open>error\<close> when that outcome was a failure.
\<close>

theorem no_exception_crosses:
  "makeRequest_try (Rejected e) = Inl e \<and>
   (\<not> ok response \<longrightarrow>
      makeRequest_try (Responded response) =
        Inl (Error (''HTTP error! status: '' @ number_to_string (status response)))) \<and>
   (ok response \<and> json_body response = Unparseable e \<longrightarrow>
      makeRequest_try (Responded response) = Inl e) \<and>
   (makeRequest_try out = Inl e \<longrightarrow>
      makeRequest_settle out =
        \<lparr>data = JNull,
         error = Some (case e of Error message \<Rightarrow> message
                               | NotAnError \<Rightarrow> ERROR_MESSAGES_UNKNOWN_ERROR)\<rparr>) \<and>
   run net (makeRequest url) n = (Inr (makeRequest_settle (net n)), [Fetched url]) \<and>
   (case run net (retryRequest (\<lambda>_. makeRequest url) 3 1000) n of
      (result, effs) \<Rightarrow>
        fetches effs \<noteq> [] \<and>
        result = Inr (makeRequest_settle (net (n + (length (fetches effs) - 1)))) \<and>
        (makeRequest_try (net (n + (length (fetches effs) - 1))) = Inl e \<longrightarrow>
           result = Inr \<lparr>data = JNull,
                         error = Some (case e of Error message \<Rightarrow> message
                                               | NotAnError \<Rightarrow> ERROR_MESSAGES_UNKNOWN_ERROR)\<rparr>)) \<and>
   (h \<in> set (returned (exec es new_service)) \<longrightarrow>
      (\<forall>t. settled (exec es new_service) h \<noteq> Some (Inl t)) \<and>
      (\<forall>m r. h = Awaiting m \<and> settled (exec es new_service) h = Some (Inr r) \<longrightarrow>
         delivered es new_service m \<noteq> [] \<and>
         r = makeRequest_settle (last (delivered es new_service m)) \<and>
         (makeRequest_try (last (delivered es new_service m)) = Inl e \<longrightarrow>
            r = \<lparr>data = JNull,
                 error = Some (case e of Error message \<Rightarrow> message
                                       | NotAnError \<Rightarrow> ERROR_MESSAGES_UNKNOWN_ERROR)\<rparr>)))"
proof (intro conjI impI allI)
  show "case run net (retryRequest (\<lambda>_. makeRequest url) 3 1000) n of
      (result, effs) \<Rightarrow>
        fetches effs \<noteq> [] \<and>
        result = Inr (makeRequest_settle (net (n + (length (fetches effs) - 1)))) \<and>
        (makeRequest_try (net (n + (length (fetches effs) - 1))) = Inl e \<longrightarrow>
           result = Inr \<lparr>data = JNull,
                         error = Some (case e of Error message \<Rightarrow> message
                                               | NotAnError \<Rightarrow> ERROR_MESSAGES_UNKNOWN_ERROR)\<rparr>)"
    using makeRequest_settle_thrown[of _ e] by (simp add: run_request)
next
  fix t assume "h \<in> set (returned (exec es new_service))"
  then show "settled (exec es new_service) h \<noteq> Some (Inl t)"
    using returned_settled[of h es "Inl t"] by auto
next
  fix m r
  assume a: "h = Awaiting m \<and> settled (exec es new_service) h = Some (Inr r)"
  then have hm: "h = Awaiting m" and st: "settled (exec es new_service) h = Some (Inr r)"
    by blast+
  have "settled (exec es new_service) (Awaiting m) = Some (Inr r)" using st unfolding hm .
  then have l: "delivered es new_service m \<noteq> []"
    "r = makeRequest_settle (last (delivered es new_service m))"
    using settled_last_delivered[of es m "Inr r"] by simp_all
  show "delivered es new_service m \<noteq> []" by (rule l(1))
  show "r = makeRequest_settle (last (delivered es new_service m))" by (rule l(2))
  show "r = \<lparr>data = JNull,
                 error = Some (case e of Error message \<Rightarrow> message
                                       | NotAnError \<Rightarrow> ERROR_MESSAGES_UNKNOWN_ERROR)\<rparr>"
    if "makeRequest_try (last (delivered es new_service m)) = Inl e"
    using l(2) makeRequest_settle_thrown[OF that] by simp
qed (simp_all add: makeRequest_try_def makeRequest_settle_def makeRequest_catch_def
       makeRequest_def Let_def)

text \<open>
  Status 500 on all three attempts of \<open>getUsers\<close>: the caller's result carries the HTTP
  error. A network that is down: the request resolves with that message.
\<close>

theorem no_exception_crosses_witness:
  "Awaiting 0 \<in> set (returned (exec users_failing new_service)) \<and>
   last (delivered users_failing new_service 0) = error_response 500 \<and>
   makeRequest_try (error_response 500) = Inl (Error ''HTTP error! status: 500'') \<and>
   settled (exec users_failing new_service) (Awaiting 0) =
     Some (Inr \<lparr>data = JNull, error = Some ''HTTP error! status: 500''\<rparr>) \<and>
   run (always (Rejected (Error ''Network down'')))
       (retryRequest (\<lambda>_. makeRequest API_ENDPOINTS_USERS) 3 1000) 0 =
     (Inr \<lparr>data = JNull, error = Some ''Network down''\<rparr>,
      [Fetched API_ENDPOINTS_USERS, Waited 1000, Fetched API_ENDPOINTS_USERS, Waited 2000,
       Fetched API_ENDPOINTS_USERS])"
proof -
  have a: "Awaiting 0 \<in> set (returned (exec users_failing new_service))"
    by (simp add: eval_simps users_failing_def)
  have b: "settled (exec users_failing new_service) (Awaiting 0) =
             Some (Inr \<lparr>data = JNull, error = Some ''HTTP error! status: 500''\<rparr>)"
    by (simp add: eval_simps users_failing_def)
  have c: "last (delivered users_failing new_service 0) = error_response 500"
    by (simp add: eval_simps delivered_simps users_failing_def)
  have d: "makeRequest_try (error_response 500) = Inl (Error ''HTTP error! status: 500'')"
    by (simp add: eval_simps)
  have e: "run (always (Rejected (Error ''Network down'')))
       (retryRequest (\<lambda>_. makeRequest API_ENDPOINTS_USERS) 3 1000) 0 =
     (Inr \<lparr>data = JNull, error = Some ''Network down''\<rparr>,
      [Fetched API_ENDPOINTS_USERS, Waited 1000, Fetched API_ENDPOINTS_USERS, Waited 2000,
       Fetched API_ENDPOINTS_USERS])"
    by (simp add: eval_simps always_def)
  show ?thesis
    using no_exception_crosses [where e = "Error ''HTTP error! status: 500''"
      and response = "\<lparr>ok = False, status = 500, json_body = Parsed (JObj [])\<rparr>"
      and out = "error_response 500" and h = "Awaiting 0" and es = users_failing
      and net = "always (Rejected (Error ''Network down''))" and n = 0
      and url = API_ENDPOINTS_USERS] a b c d e
    by blast
qed

section \<open>Clearing one entry\<close>

text \<open>
  Claim C9. \<open>clearCacheEntry k\<close> removes the cache entry under \<open>k\<close> and nothing else:
  the entries under all other keys, the pending requests and the operations are unchanged.
\<close>

theorem clearCacheEntry_frame:
  "(\<forall>k'. k' \<noteq> k \<longrightarrow> cache (clearCacheEntry k s) k' = cache s k') \<and>
   cache (clearCacheEntry k s) k = None \<and>
   pendingRequests (clearCacheEntry k s) = pendingRequests s \<and>
   operations (clearCacheEntry k s) = operations s"
  by (simp add: clearCacheEntry_def)

text \<open>
  With the users and user 1 cached and a request for user 2 pending, clearing the users
  leaves the other two.
\<close>

theorem clearCacheEntry_frame_witness:
  "cache (clearCacheEntry ''users''
            (exec (users_loaded @ [(7, GetUserById 1), (9, FetchSettles 1 (ok_response (JObj []))),
                                   (9, Resumes 1), (10, GetUserById 2)]) new_service)) ''user-1'' =
     Some \<lparr>cached_data = JObj [], timestamp = 9\<rparr> \<and>
   cache (clearCacheEntry ''users''
            (exec (users_loaded @ [(7, GetUserById 1), (9, FetchSettles 1 (ok_response (JObj []))),
                                   (9, Resumes 1), (10, GetUserById 2)]) new_service)) ''users'' = None \<and>
   pendingRequests (clearCacheEntry ''users''
            (exec (users_loaded @ [(7, GetUserById 1), (9, FetchSettles 1 (ok_response (JObj []))),
                                   (9, Resumes 1), (10, GetUserById 2)]) new_service)) ''user-2'' = Some 2"
  using clearCacheEntry_frame [where k = "''users''"
      and s = "exec (users_loaded @ [(7, GetUserById 1), (9, FetchSettles 1 (ok_response (JObj []))),
                                   (9, Resumes 1), (10, GetUserById 2)]) new_service"]
  by (simp add: eval_simps users_loaded_def sample_users_def)

section \<open>\<open>getUserById\<close> takes any id\<close>

text \<open>
  Claim C10. \<open>getUserById\<close> does not look at its id: for every id, of whatever kind and
  however the platform renders it, it is the cached, deduplicated, retried request with the
  key \<^verbatim>\<open>user-{id}\<close> and the URL \<^verbatim>\<open>{base}/users/{id}\<close>. For a key that is neither cached nor
  pending it fetches that URL and registers the request under that key; the request
  resolves with a result on every network, and truthy data is cached under that key.
\<close>

theorem getUserById_any_id:
  fixes toString :: "'n \<Rightarrow> string" and uid :: 'n
  assumes "key = ''user-'' @ toString uid" and "url = API_BASE_URL @ ''/users/'' @ toString uid"
  shows "getUserById toString now uid s = makeCachedRequest now url key s \<and>
         (cache s key = None \<and> pendingRequests s key = None \<longrightarrow>
            (case getUserById toString now uid s of
               (h, s') \<Rightarrow>
                 h = Awaiting (length (operations s)) \<and>
                 effects s' = effects s @ [Fetched url] \<and>
                 pendingRequests s' key = Some (length (operations s)) \<and>
                 (\<exists>r. fst (run net (op_promise (operations s' ! length (operations s))) i) = Inr r) \<and>
                 (truthy (data (makeRequest_settle out)) \<longrightarrow>
                    settled (makeCachedRequest_resume now' (length (operations s))
                               (fetch_settles (length (operations s)) out s')) h =
                      Some (Inr (makeRequest_settle out)) \<and>
                    cache (makeCachedRequest_resume now' (length (operations s))
                             (fetch_settles (length (operations s)) out s')) key =
                      Some \<lparr>cached_data = data (makeRequest_settle out), timestamp = now'\<rparr>)))"
proof -
  have same: "getUserById toString now uid s = makeCachedRequest now url key s"
    by (simp add: getUserById_def assms API_ENDPOINTS_USERS_def)
  have started: "case makeCachedRequest now url key s of
               (h, s') \<Rightarrow>
                 h = Awaiting (length (operations s)) \<and>
                 effects s' = effects s @ [Fetched url] \<and>
                 pendingRequests s' key = Some (length (operations s)) \<and>
                 (\<exists>r. fst (run net (op_promise (operations s' ! length (operations s))) i) = Inr r) \<and>
                 (truthy (data (makeRequest_settle out)) \<longrightarrow>
                    settled (makeCachedRequest_resume now' (length (operations s))
                               (fetch_settles (length (operations s)) out s')) h =
                      Some (Inr (makeRequest_settle out)) \<and>
                    cache (makeCachedRequest_resume now' (length (operations s))
                             (fetch_settles (length (operations s)) out s')) key =
                      Some \<lparr>cached_data = data (makeRequest_settle out), timestamp = now'\<rparr>)"
    if c: "cache s key = None" and p: "pendingRequests s key = None"
  proof -
    define s' where "s' = s\<lparr>operations := operations s @
                  [\<lparr>op_key = key, op_promise = retryRequest (\<lambda>_. makeRequest url) 3 1000,
                    op_finished = False\<rparr>],
               effects := effects s @ [Fetched url],
               pendingRequests := (pendingRequests s)(key \<mapsto> length (operations s))\<rparr>"
    have m: "makeCachedRequest now url key s = (Awaiting (length (operations s)), s')"
      unfolding s'_def
      by (rule makeCachedRequest_start[OF getCachedData_absent[OF c]]) (simp_all add: p)
    have r: "\<exists>r. fst (run net (op_promise (operations s' ! length (operations s))) i) = Inr r"
      using run_request_resolves[of net url i] by (auto simp: s'_def)
    have fin: "settled (makeCachedRequest_resume now' (length (operations s))
                               (fetch_settles (length (operations s)) out s')) (Awaiting (length (operations s))) =
                      Some (Inr (makeRequest_settle out)) \<and>
                    cache (makeCachedRequest_resume now' (length (operations s))
                             (fetch_settles (length (operations s)) out s')) key =
                      Some \<lparr>cached_data = data (makeRequest_settle out), timestamp = now'\<rparr>"
      if "truthy (data (makeRequest_settle out))"
      using that
      by (simp add: s'_def fetch_settles_def retryRequest_Fetch announce_def
            makeCachedRequest_resume_def Let_def setCachedData_def settled_def)
    show ?thesis
      unfolding m prod.case using r fin by (simp add: s'_def)
  qed
  show ?thesis using same started by simp
qed

text \<open>The ids -7 and 0.\<close>

theorem getUserById_any_id_witness:
  "fst (getUserById number_to_string 0 (- 7) new_service) = Awaiting 0 \<and>
   effects (snd (getUserById number_to_string 0 (- 7) new_service)) =
     [Fetched ''https://jsonplaceholder.typicode.com/users/-7''] \<and>
   pendingRequests (snd (getUserById number_to_string 0 (- 7) new_service)) ''user--7'' = Some 0 \<and>
   effects (snd (getUserById number_to_string 0 0 new_service)) =
     [Fetched ''https://jsonplaceholder.typicode.com/users/0'']"
  using getUserById_any_id [where toString = number_to_string and uid = "- 7"
      and key = "''user--7''" and url = "''https://jsonplaceholder.typicode.com/users/-7''"
      and s = new_service and now = 0]
    getUserById_any_id [where toString = number_to_string and uid = 0
      and key = "''user-0''" and url = "''https://jsonplaceholder.typicode.com/users/0''"
      and s = new_service and now = 0]
  by (simp add: eval_simps getUserById_def API_ENDPOINTS_USERS_def API_BASE_URL_def)

end
